theory Spec2Isabelle
  imports Complex_Main
begin

section \<open>Values and Python primitives\<close>

text \<open>
  The exceptions the modelled part of \<^verbatim>\<open>structural_beso.py\<close> can raise, and the
  \<^verbatim>\<open>sys.exit()\<close> of the boundary-condition check (\<open>InsufficientConstraint\<close>).
\<close>

datatype error = ZeroDivisionError | InsufficientConstraint | IndexError | ValueError

text \<open>
  A float64 of the optimisation loop: a real number, one of the two infinities, or NaN.
  Rounding, overflow of finite results and the sign of zero are not modelled: finite
  arithmetic is exact.
\<close>

datatype fval = NaN | NInf | Fin real | PInf

text \<open>IEEE comparison \<^verbatim>\<open>a < b\<close>: false whenever an operand is NaN.\<close>

fun flt :: "fval \<Rightarrow> fval \<Rightarrow> bool" where
  "flt NaN b = False"
| "flt a NaN = False"
| "flt PInf b = False"
| "flt a NInf = False"
| "flt NInf b = True"
| "flt a PInf = True"
| "flt (Fin a) (Fin b) = (a < b)"

definition inf_sign :: "real \<Rightarrow> fval" where
  "inf_sign s = (if 0 < s then PInf else if s < 0 then NInf else NaN)"

fun fabs :: "fval \<Rightarrow> fval" where
  "fabs NaN = NaN"
| "fabs NInf = PInf"
| "fabs PInf = PInf"
| "fabs (Fin a) = Fin \<bar>a\<bar>"

fun fadd :: "fval \<Rightarrow> fval \<Rightarrow> fval" where
  "fadd NaN b = NaN"
| "fadd a NaN = NaN"
| "fadd PInf NInf = NaN"
| "fadd NInf PInf = NaN"
| "fadd PInf b = PInf"
| "fadd a PInf = PInf"
| "fadd NInf b = NInf"
| "fadd a NInf = NInf"
| "fadd (Fin a) (Fin b) = Fin (a + b)"

fun fmul :: "fval \<Rightarrow> fval \<Rightarrow> fval" where
  "fmul NaN b = NaN"
| "fmul a NaN = NaN"
| "fmul (Fin a) (Fin b) = Fin (a * b)"
| "fmul (Fin a) PInf = inf_sign a"
| "fmul (Fin a) NInf = inf_sign (- a)"
| "fmul PInf (Fin b) = inf_sign b"
| "fmul NInf (Fin b) = inf_sign (- b)"
| "fmul PInf PInf = PInf"
| "fmul NInf NInf = PInf"
| "fmul PInf NInf = NInf"
| "fmul NInf PInf = NInf"

text \<open>
  numpy division: a zero divisor gives an infinity or NaN (with a warning), never an
  exception. The divisors of the program are maxima of absolute values, so a zero
  divisor is \<open>+0\<close>.
\<close>

fun fdiv :: "fval \<Rightarrow> fval \<Rightarrow> fval" where
  "fdiv NaN b = NaN"
| "fdiv a NaN = NaN"
| "fdiv (Fin a) (Fin b) = (if b = 0 then inf_sign a else Fin (a / b))"
| "fdiv (Fin a) PInf = Fin 0"
| "fdiv (Fin a) NInf = Fin 0"
| "fdiv PInf (Fin b) = (if 0 \<le> b then PInf else NInf)"
| "fdiv NInf (Fin b) = (if 0 \<le> b then NInf else PInf)"
| "fdiv PInf PInf = NaN"
| "fdiv NInf NInf = NaN"
| "fdiv PInf NInf = NaN"
| "fdiv NInf PInf = NaN"

fun is_fin :: "fval \<Rightarrow> bool" where
  "is_fin (Fin a) = True"
| "is_fin v = False"

text \<open>The order \<^verbatim>\<open>np.argsort\<close> sorts by: ascending, NaN last.\<close>

fun np_le :: "fval \<Rightarrow> fval \<Rightarrow> bool" where
  "np_le a NaN = True"
| "np_le NaN b = False"
| "np_le NInf b = True"
| "np_le a NInf = False"
| "np_le a PInf = True"
| "np_le PInf b = False"
| "np_le (Fin a) (Fin b) = (a \<le> b)"

text \<open>Sequencing of computations that may raise.\<close>

fun ebind :: "error + 'a \<Rightarrow> ('a \<Rightarrow> error + 'b) \<Rightarrow> error + 'b" where
  "ebind (Inl e) f = Inl e"
| "ebind (Inr v) f = f v"

text \<open>
  The subscript \<^verbatim>\<open>xs[i]\<close>: positions \<open>0 .. len-1\<close> are read directly, positions
  \<open>-len .. -1\<close> are read from the end, everything else raises.
\<close>

definition py_get :: "'a list \<Rightarrow> int \<Rightarrow> error + 'a" where
  "py_get xs i =
     (if 0 \<le> i \<and> i < int (length xs) then Inr (xs ! nat i)
      else if i < 0 \<and> - int (length xs) \<le> i then Inr (xs ! nat (int (length xs) + i))
      else Inl IndexError)"

text \<open>Assignment \<^verbatim>\<open>xs[i] = v\<close> at a non-negative index.\<close>

definition py_set :: "'a list \<Rightarrow> nat \<Rightarrow> 'a \<Rightarrow> error + 'a list" where
  "py_set xs i v = (if i < length xs then Inr (xs[i := v]) else Inl IndexError)"

text \<open>numpy assignment \<^verbatim>\<open>xs[ids] = v\<close> through an array of indices.\<close>

definition np_assign :: "'a list \<Rightarrow> nat list \<Rightarrow> 'a \<Rightarrow> error + 'a list" where
  "np_assign xs ids v =
     (if \<forall>i \<in> set ids. i < length xs then Inr (fold (\<lambda>i ys. ys[i := v]) ids xs)
      else Inl IndexError)"

text \<open>
  Python's builtin \<^verbatim>\<open>max\<close> over an array: the first element, replaced by each later
  element that compares greater; ValueError on an empty one.
\<close>

definition py_max :: "fval list \<Rightarrow> error + fval" where
  "py_max xs = (case xs of [] \<Rightarrow> Inl ValueError
                | v # vs \<Rightarrow> Inr (foldl (\<lambda>m w. if flt m w then w else m) v vs))"

text \<open>\<^verbatim>\<open>int(r)\<close> of a float: truncation towards zero.\<close>

definition py_int :: "real \<Rightarrow> int" where
  "py_int r = (if 0 \<le> r then \<lfloor>r\<rfloor> else \<lceil>r\<rceil>)"

text \<open>\<^verbatim>\<open>sum(mask)\<close> of a boolean array: the number of True entries.\<close>

definition volume :: "bool list \<Rightarrow> nat" where
  "volume x = length (filter (\<lambda>b. b) x)"

text \<open>\<^verbatim>\<open>for i in range(n)\<close> with a body that may raise.\<close>

fun for_each :: "nat list \<Rightarrow> (nat \<Rightarrow> 's \<Rightarrow> error + 's) \<Rightarrow> 's \<Rightarrow> error + 's" where
  "for_each [] body s = Inr s"
| "for_each (i # is) body s =
     (case body i s of Inl e \<Rightarrow> Inl e | Inr s' \<Rightarrow> for_each is body s')"

text \<open>The same with \<^verbatim>\<open>break\<close>: the body returns \<open>None\<close> to leave the loop.\<close>

fun for_each_break :: "nat list \<Rightarrow> (nat \<Rightarrow> 's \<Rightarrow> error + 's option) \<Rightarrow> 's \<Rightarrow> error + 's" where
  "for_each_break [] body s = Inr s"
| "for_each_break (i # is) body s =
     (case body i s of Inl e \<Rightarrow> Inl e
      | Inr None \<Rightarrow> Inr s
      | Inr (Some s') \<Rightarrow> for_each_break is body s')"

section \<open>Fixed properties (lines 56-65)\<close>

definition VV :: real where "VV = 1 / 64"
definition TV :: real where "TV = 1 / 32"
definition patience :: nat where "patience = 20"
definition momentum :: real where "momentum = 1 / 2"
definition Ly :: real where "Ly = 1"
definition small :: real where "small = 1 / 10 ^ 14"

section \<open>Boundary conditions (lines 215-297)\<close>

text \<open>
  The y-coordinate of node \<open>k\<close>: \<^verbatim>\<open>esize*ycoor[k] - 0.5*Ly\<close>, where \<^verbatim>\<open>ycoor\<close> repeats
  \<^verbatim>\<open>range(Ny+1)\<close> for every column of nodes and \<^verbatim>\<open>esize = Ly/Ny\<close>.
\<close>

definition coor_y :: "nat \<Rightarrow> nat \<Rightarrow> real" where
  "coor_y Ny k = (Ly / real Ny) * real (k mod (Ny + 1)) - 0.5 * Ly"

text \<open>The band test \<^verbatim>\<open>abs(y - pos*Ly) < rad*Ly + small\<close>.\<close>

definition in_band :: "real \<Rightarrow> real \<Rightarrow> real \<Rightarrow> bool" where
  "in_band y pos rad = (\<bar>y - pos * Ly\<bar> < rad * Ly + small)"

record bconds =
  bc_lim :: "nat \<times> nat"
  freeDofs :: "bool list"
  ld_ele :: "nat list"
  ld_lim :: "nat \<times> nat"
  fg :: "real list"
  fr :: "real list"

definition bc_mask :: "nat \<Rightarrow> real \<Rightarrow> real \<Rightarrow> bool list" where
  "bc_mask Ny bc_pos bc_rad = map (\<lambda>j. in_band (coor_y Ny j) bc_pos bc_rad) [0..<Ny + 1]"

definition ld_mask :: "nat \<Rightarrow> real \<Rightarrow> real \<Rightarrow> bool list" where
  "ld_mask Ny ld_pos ld_rad =
     map (\<lambda>j. in_band (coor_y Ny (2 * Ny * (Ny + 1) + j)) ld_pos ld_rad) [0..<Ny + 1]"

text \<open>The load vector \<^verbatim>\<open>fg\<close> (lines 279, 286-296).\<close>

definition load_vector :: "nat \<Rightarrow> nat \<Rightarrow> nat list \<Rightarrow> error + real list" where
  "load_vector G ld_num ld_ids =
     (let fg0 = replicate G (0::real)
      in if ld_num = 0 then Inr fg0
         else if ld_num = 1 then np_assign fg0 (map (\<lambda>i. 2 * i + 1) ld_ids) (- 1)
         else
           (let ld_val = - 1 / (real ld_num - 1)
            in ebind (np_assign fg0 (map (\<lambda>i. 2 * i + 1) (butlast (tl ld_ids))) ld_val) (\<lambda>fg1.
               ebind (py_get ld_ids 0) (\<lambda>i0.
               ebind (py_get ld_ids (- 1)) (\<lambda>i1.
               np_assign fg1 (map (\<lambda>i. 2 * i + 1) [i0, i1]) (0.5 * ld_val))))))"

text \<open>Lines 263-276: the support band of the left edge and the free DOFs.\<close>

definition free_dofs_stage :: "nat \<Rightarrow> real \<Rightarrow> real \<Rightarrow> error + (nat \<times> nat) \<times> bool list" where
  "free_dofs_stage Ny bc_pos bc_rad =
     (let G = 2 * (2 * Ny + 1) * (Ny + 1);
          bcm = bc_mask Ny bc_pos bc_rad
      in if volume bcm < 2 then Inl InsufficientConstraint
         else
           (let bc_ids = filter (\<lambda>j. bcm ! j) [0..<Ny + 1]
            in ebind (py_get bc_ids 0) (\<lambda>b0.
               ebind (py_get bc_ids (- 1)) (\<lambda>b1.
               ebind (np_assign (replicate G True)
                        (map (\<lambda>i. 2 * i) bc_ids @ map (\<lambda>i. 2 * i + 1) bc_ids) False) (\<lambda>fd.
               Inr ((b0, b1), fd))))))"

text \<open>Lines 279-296: the loaded elements of the right edge and the load vector.\<close>

definition load_stage ::
  "nat \<Rightarrow> real \<Rightarrow> real \<Rightarrow> error + nat list \<times> (nat \<times> nat) \<times> real list" where
  "load_stage Ny ld_pos ld_rad =
     (let Nx = 2 * Ny;
          G = 2 * (Nx + 1) * (Ny + 1);
          ldm = ld_mask Ny ld_pos ld_rad;
          ld_mask_ele = map (\<lambda>j. ldm ! (j + 1) \<or> ldm ! j) [0..<Ny];
          lde = map (\<lambda>j. (Nx - 1) * Ny + j) (filter (\<lambda>j. ld_mask_ele ! j) [0..<Ny])
      in ebind (py_get lde 0) (\<lambda>l0.
         ebind (py_get lde (- 1)) (\<lambda>l1.
         (let ld_num = volume ldm;
              ld_ids = map (\<lambda>j. Nx * (Ny + 1) + j) (filter (\<lambda>j. ldm ! j) [0..<Ny + 1])
          in ebind (load_vector G ld_num ld_ids) (\<lambda>fgv. Inr (lde, (l0, l1), fgv))))))"

text \<open>
  Lines 215-297. \<^verbatim>\<open>esize = Ly/Ny\<close> (line 217) divides a Python float by an int and
  raises on \<open>Ny = 0\<close>.
\<close>

definition boundary_conditions ::
  "nat \<Rightarrow> real \<Rightarrow> real \<Rightarrow> real \<Rightarrow> real \<Rightarrow> error + bconds" where
  "boundary_conditions Ny bc_pos bc_rad ld_pos ld_rad =
     (if Ny = 0 then Inl ZeroDivisionError
      else
        ebind (free_dofs_stage Ny bc_pos bc_rad) (\<lambda>(blim, fd).
        ebind (load_stage Ny ld_pos ld_rad) (\<lambda>(lde, llim, fgv).
        Inr \<lparr>bc_lim = blim, freeDofs = fd, ld_ele = lde, ld_lim = llim, fg = fgv,
             fr = map fst (filter snd (zip fgv fd))\<rparr>)))"

section \<open>The optimisation loop (lines 365-591)\<close>

text \<open>
  The variables of the loop that the topology update and the convergence check read and
  write. \<^verbatim>\<open>x_opt\<close> is unbound until its first assignment (\<open>None\<close>); \<^verbatim>\<open>vol\<close> is
  \<^verbatim>\<open>sum(x)\<close> at every point where it is read (lines 376, 577), so it is recomputed from
  \<open>x\<close>.
\<close>

record state =
  x :: "bool list"
  alpha_m :: "fval list"
  obj_opt :: fval
  x_opt :: "bool list option"
  waiting :: nat
  keep_going :: bool

definition Vt :: "nat \<Rightarrow> nat" where
  "Vt N = nat (py_int (real N / 2))"

definition dVmax :: "nat \<Rightarrow> nat" where
  "dVmax N = max 1 (nat (py_int (VV * real N)))"

definition dXmax :: "nat \<Rightarrow> real" where
  "dXmax N = max 2 (TV * real N)"

definition init_state :: "nat \<Rightarrow> state" where
  "init_state N =
     \<lparr>x = replicate N True, alpha_m = replicate N (Fin 0), obj_opt = PInf,
      x_opt = None, waiting = 0, keep_going = True\<rparr>"

text \<open>
  The start of an instance: the boundary conditions come first, and the optimisation
  variables (lines 365-384, the all-solid topology of line 219) exist only when that
  stage has not failed. \<open>N = Nx*Ny\<close> with \<open>Nx = 2*Ny\<close>.
\<close>

definition optimization_setup ::
  "nat \<Rightarrow> real \<Rightarrow> real \<Rightarrow> real \<Rightarrow> real \<Rightarrow> error + bconds \<times> state" where
  "optimization_setup Ny bc_pos bc_rad ld_pos ld_rad =
     ebind (boundary_conditions Ny bc_pos bc_rad ld_pos ld_rad) (\<lambda>b.
     Inr (b, init_state (2 * Ny * Ny)))"

text \<open>
  Lines 447-450. \<open>alpha_f\<close> is the array \<^verbatim>\<open>str_filter\<close> has written: the filter and the
  finite-element solve behind it are numerical code outside this development, so their
  result is an input of the step.
\<close>

definition momentum_step :: "nat list \<Rightarrow> fval list \<Rightarrow> fval list \<Rightarrow> error + fval list" where
  "momentum_step lde am alpha_f =
     ebind (np_assign am lde (Fin 0)) (\<lambda>am0.
     ebind (py_max (map fabs alpha_f)) (\<lambda>mf.
     if length alpha_f \<noteq> length am0 then Inl ValueError
     else
       (let am1 = map (\<lambda>(a, f). fadd (fmul (Fin momentum) a)
                                   (fmul (Fin (1 - momentum)) (fdiv f mf))) (zip am0 alpha_f)
        in ebind (py_max (map fabs am1)) (\<lambda>mm.
           np_assign (map (\<lambda>a. fdiv a mm) am1) lde NInf))))"

text \<open>\<^verbatim>\<open>np.argwhere(x)[:,0]\<close> and \<^verbatim>\<open>np.argwhere(~x)[:,0]\<close>.\<close>

definition solid :: "bool list \<Rightarrow> nat list" where
  "solid xs = filter (\<lambda>e. xs ! e) [0..<length xs]"

definition void :: "bool list \<Rightarrow> nat list" where
  "void xs = filter (\<lambda>e. \<not> xs ! e) [0..<length xs]"

text \<open>
  The state of the topology update: the topology, the counter of the reduction phase and
  the sequence of \<^verbatim>\<open>factor.update_inplace\<close> calls made so far, each recorded as the
  element whose stiffness variation is applied and its \<^verbatim>\<open>subtract\<close> flag.
\<close>

record upd =
  ux :: "bool list"
  ucount :: nat
  ulog :: "(nat \<times> bool) list"

text \<open>The body of the loop "changing volume" (lines 463-494).\<close>

definition remove_body :: "nat list \<Rightarrow> nat list \<Rightarrow> nat \<Rightarrow> upd \<Rightarrow> error + upd" where
  "remove_body sol sorted_solid i s =
     ebind (py_get sorted_solid (- 1 - int i)) (\<lambda>j.
     ebind (py_get sol (int j)) (\<lambda>es.
     ebind (py_set (ux s) es False) (\<lambda>x1.
     Inr (s\<lparr>ux := x1, ulog := ulog s @ [(es, True)], ucount := ucount s + 1\<rparr>))))"

definition changing_volume ::
  "nat \<Rightarrow> nat list \<Rightarrow> nat list \<Rightarrow> bool list \<Rightarrow> error + upd" where
  "changing_volume N sol sorted_solid x0 =
     for_each [0..<nat (min (int (volume x0) - int (Vt N)) (int (dVmax N)))]
       (remove_body sol sorted_solid) \<lparr>ux = x0, ucount = 0, ulog = []\<rparr>"

text \<open>The body of the loop "constant volume" (lines 497-559).\<close>

definition swap_body ::
  "fval list \<Rightarrow> nat list \<Rightarrow> nat list \<Rightarrow> nat list \<Rightarrow> nat list \<Rightarrow> nat \<Rightarrow> upd \<Rightarrow>
   error + upd option" where
  "swap_body am sol vd sorted_solid sorted_void i s =
     ebind (py_get sorted_solid (- 1 - int i - int (ucount s))) (\<lambda>j.
     ebind (py_get sol (int j)) (\<lambda>es.
     ebind (py_get sorted_void (int i)) (\<lambda>k.
     ebind (py_get vd (int k)) (\<lambda>ev.
     ebind (py_get am (int es)) (\<lambda>a_es.
     ebind (py_get am (int ev)) (\<lambda>a_ev.
     if flt a_es a_ev then Inr None
     else
       ebind (py_set (ux s) es False) (\<lambda>x1.
       ebind (py_set x1 ev True) (\<lambda>x2.
       Inr (Some (s\<lparr>ux := x2, ulog := ulog s @ [(es, True), (ev, False)]\<rparr>))))))))))"

definition constant_volume ::
  "nat \<Rightarrow> fval list \<Rightarrow> nat list \<Rightarrow> nat list \<Rightarrow> nat list \<Rightarrow> nat list \<Rightarrow> upd \<Rightarrow> error + upd" where
  "constant_volume N am sol vd sorted_solid sorted_void s =
     for_each_break
       [0..<nat (min (int (length sorted_void)) (py_int ((dXmax N - real (ucount s)) / 2)))]
       (swap_body am sol vd sorted_solid sorted_void) s"

text \<open>
  Lines 456-559. \<open>sorted_solid\<close> and \<open>sorted_void\<close> are the results of
  \<^verbatim>\<open>np.argsort(alpha_m[solid])\<close> and \<^verbatim>\<open>np.argsort(alpha_m[void])\<close>: the library routine
  fixes the order of equal keys in a way the program does not state, so the two
  permutations are inputs, constrained by \<open>is_argsort\<close> where a theorem needs it.
\<close>

definition update_topology ::
  "nat \<Rightarrow> fval list \<Rightarrow> nat list \<Rightarrow> nat list \<Rightarrow> bool list \<Rightarrow> error + upd" where
  "update_topology N am sorted_solid sorted_void x0 =
     ebind (changing_volume N (solid x0) sorted_solid x0)
       (constant_volume N am (solid x0) (void x0) sorted_solid sorted_void)"

text \<open>Lines 577-591, with \<open>obj\<close> the compliance \<^verbatim>\<open>np.dot(ug,fg)\<close> of the new topology.\<close>

definition post_solver :: "nat \<Rightarrow> fval \<Rightarrow> state \<Rightarrow> state" where
  "post_solver N obj s =
     (if volume (x s) = Vt N then
        if flt obj (fmul (Fin (1 - small)) (obj_opt s)) then
          s\<lparr>x_opt := Some (x s), obj_opt := obj, waiting := 0\<rparr>
        else
          (let w = waiting s + 1
           in if w = patience then s\<lparr>waiting := w, keep_going := False\<rparr>
              else s\<lparr>waiting := w\<rparr>)
      else s)"

text \<open>
  What one pass of the \<^verbatim>\<open>while keep_going\<close> body receives from the numerical code:
  the filtered sensitivities, the two argsort results and the compliance after the solve.
\<close>

record numerics =
  n_alpha_f :: "fval list"
  n_sorted_solid :: "nat list"
  n_sorted_void :: "nat list"
  n_obj :: fval

definition iteration :: "nat \<Rightarrow> nat list \<Rightarrow> numerics \<Rightarrow> state \<Rightarrow> error + state" where
  "iteration N lde nu s =
     ebind (momentum_step lde (alpha_m s) (n_alpha_f nu)) (\<lambda>am.
     ebind (update_topology N am (n_sorted_solid nu) (n_sorted_void nu) (x s)) (\<lambda>u.
     Inr (post_solver N (n_obj nu) (s\<lparr>x := ux u, alpha_m := am\<rparr>))))"

text \<open>
  What \<^verbatim>\<open>np.argsort(vals)\<close> guarantees of its result: a permutation of the positions of
  \<open>vals\<close> that lists the values in ascending order, NaN last.
\<close>

definition is_argsort :: "fval list \<Rightarrow> nat list \<Rightarrow> bool" where
  "is_argsort vals ids =
     (sort ids = [0..<length vals] \<and> sorted_wrt (\<lambda>i j. np_le (vals ! i) (vals ! j)) ids)"

definition argsort_ok :: "nat list \<Rightarrow> state \<Rightarrow> numerics \<Rightarrow> bool" where
  "argsort_ok lde s nu =
     (case momentum_step lde (alpha_m s) (n_alpha_f nu) of
        Inl e \<Rightarrow> True
      | Inr am \<Rightarrow>
          is_argsort (map (\<lambda>e. am ! e) (solid (x s))) (n_sorted_solid nu) \<and>
          is_argsort (map (\<lambda>e. am ! e) (void (x s))) (n_sorted_void nu))"

text \<open>
  The \<^verbatim>\<open>while keep_going\<close> loop as a step relation: \<open>run_to N lde P s0 s\<close> holds when
  the loop started in \<open>s0\<close> is in \<open>s\<close> at the top of a later pass (or after its last
  one), every pass having been entered with \<open>keep_going\<close> set and with numerical inputs
  that satisfy \<open>P\<close>.
\<close>

inductive run_to ::
  "nat \<Rightarrow> nat list \<Rightarrow> (state \<Rightarrow> numerics \<Rightarrow> bool) \<Rightarrow> state \<Rightarrow> state \<Rightarrow> bool"
  for N :: nat and lde :: "nat list" and P :: "state \<Rightarrow> numerics \<Rightarrow> bool" and s0 :: state where
  run_to_refl: "run_to N lde P s0 s0"
| run_to_step:
    "run_to N lde P s0 s \<Longrightarrow> keep_going s \<Longrightarrow> P s nu \<Longrightarrow> iteration N lde nu s = Inr s'
     \<Longrightarrow> run_to N lde P s0 s'"

text \<open>The states of one optimisation run: those the loop reaches from line 393.\<close>

definition reachable ::
  "nat \<Rightarrow> nat list \<Rightarrow> (state \<Rightarrow> numerics \<Rightarrow> bool) \<Rightarrow> state \<Rightarrow> bool" where
  "reachable N lde P s = run_to N lde P (init_state N) s"

text \<open>
  Assumptions on the numerical inputs of a pass. The compliance \<^verbatim>\<open>np.dot(ug,fg)\<close> is
  \<open>fr\<^sup>T Kr\<^sup>-\<^sup>1 fr\<close> for the positive definite reduced stiffness matrix, hence never
  negative (\<open>obj_nonneg\<close>); \<open>obj_finite\<close> says that it is a finite number.
\<close>

definition obj_nonneg :: "state \<Rightarrow> numerics \<Rightarrow> bool" where
  "obj_nonneg s nu = (\<not> flt (n_obj nu) (Fin 0))"


text \<open>A small run used to instantiate the theorems: one column of two elements.\<close>

definition ex_nu1 :: numerics where
  "ex_nu1 = \<lparr>n_alpha_f = [Fin (- 1), Fin (- 1)], n_sorted_solid = [1, 0], n_sorted_void = [],
             n_obj = Fin 3\<rparr>"

definition ex_nu2 :: numerics where
  "ex_nu2 = \<lparr>n_alpha_f = [Fin (- 1), Fin (- 1)], n_sorted_solid = [0], n_sorted_void = [0],
             n_obj = Fin 3\<rparr>"

definition ex_state :: "nat \<Rightarrow> bool \<Rightarrow> state" where
  "ex_state k g = \<lparr>x = [False, True], alpha_m = [Fin (- 1), NInf], obj_opt = Fin 3,
                  x_opt = Some [False, True], waiting = k, keep_going = g\<rparr>"

text \<open>
  Together with the contract of argsort, the array \<^verbatim>\<open>str_filter\<close> writes has one
  entry per element.
\<close>

definition numerics_wf :: "nat \<Rightarrow> nat list \<Rightarrow> state \<Rightarrow> numerics \<Rightarrow> bool" where
  "numerics_wf N lde s nu = (length (n_alpha_f nu) = N \<and> argsort_ok lde s nu)"

text \<open>
  The assumption under which the sentinel of line 450 is the strict minimum: away from
  the load band the smoothed sensitivities are finite numbers. (A NaN arises there only
  from a normalisation \<open>0/0\<close> in lines 448-449.)
\<close>

definition sens_finite :: "nat list \<Rightarrow> state \<Rightarrow> numerics \<Rightarrow> bool" where
  "sens_finite lde s nu =
     (case momentum_step lde (alpha_m s) (n_alpha_f nu) of
        Inl e \<Rightarrow> True
      | Inr am \<Rightarrow> list_all (\<lambda>e. e \<in> set lde \<or> is_fin (am ! e)) [0..<length am])"

definition numerics_fin :: "nat \<Rightarrow> nat list \<Rightarrow> state \<Rightarrow> numerics \<Rightarrow> bool" where
  "numerics_fin N lde s nu = (numerics_wf N lde s nu \<and> sens_finite lde s nu)"

section \<open>Closed forms of the two phases of the topology update\<close>

text \<open>
  The solid element the loops index as \<^verbatim>\<open>solid[sorted_solid[-1-i]]\<close> and the void
  element \<^verbatim>\<open>void[sorted_void[i]]\<close>.
\<close>

definition es_at :: "nat list \<Rightarrow> nat list \<Rightarrow> nat \<Rightarrow> nat" where
  "es_at sol ss i = sol ! (ss ! (length ss - 1 - i))"

definition ev_at :: "nat list \<Rightarrow> nat list \<Rightarrow> nat \<Rightarrow> nat" where
  "ev_at vd sv i = vd ! (sv ! i)"

text \<open>The state after \<open>c\<close> passes of the loop "changing volume".\<close>

definition removed_upd :: "nat list \<Rightarrow> nat list \<Rightarrow> bool list \<Rightarrow> nat \<Rightarrow> upd" where
  "removed_upd sol ss x0 c =
     \<lparr>ux = fold (\<lambda>k ys. ys[es_at sol ss k := False]) [0..<c] x0, ucount = c,
      ulog = map (\<lambda>k. (es_at sol ss k, True)) [0..<c]\<rparr>"

text \<open>The state after \<open>m\<close> executed passes of the loop "constant volume", started in \<open>u\<close>.\<close>

definition swapped_upd ::
  "nat list \<Rightarrow> nat list \<Rightarrow> nat list \<Rightarrow> nat list \<Rightarrow> upd \<Rightarrow> nat \<Rightarrow> upd" where
  "swapped_upd sol vd ss sv u m =
     \<lparr>ux = fold (\<lambda>k ys. ys[es_at sol ss (k + ucount u) := False, ev_at vd sv k := True])
             [0..<m] (ux u),
      ucount = ucount u,
      ulog = ulog u @ concat (map (\<lambda>k. [(es_at sol ss (k + ucount u), True),
                                         (ev_at vd sv k, False)]) [0..<m])\<rparr>"

text \<open>The bound \<^verbatim>\<open>min([len(sorted_void),int((dXmax-count)/2)])\<close> of the second loop.\<close>

definition swap_limit :: "nat \<Rightarrow> nat \<Rightarrow> nat \<Rightarrow> nat" where
  "swap_limit N l c = nat (min (int l) (py_int ((dXmax N - real c) / 2)))"

text \<open>The (solid, void) pairs of the first \<open>m\<close> passes of the second loop.\<close>

definition swap_pairs ::
  "nat list \<Rightarrow> nat list \<Rightarrow> nat list \<Rightarrow> nat list \<Rightarrow> nat \<Rightarrow> nat \<Rightarrow> (nat \<times> nat) list" where
  "swap_pairs sol vd ss sv c m = map (\<lambda>k. (es_at sol ss (k + c), ev_at vd sv k)) [0..<m]"

section \<open>A run on a mesh of 4 x 2 elements\<close>

text \<open>
  \<open>Ny = 2\<close>, the two elements of the right column loaded. Four passes remove one element
  each; the fifth, with other filtered sensitivities, swaps a pair.
\<close>

definition ex8_af :: "fval list" where
  "ex8_af = [Fin (- 1), Fin (- 1 / 2), Fin (- 1 / 4), Fin (- 1 / 8), Fin (- 1), Fin (- 1 / 2),
             Fin (- 1), Fin (- 1)]"

definition ex8_af5 :: "fval list" where
  "ex8_af5 = [Fin (- 1), Fin (- 1), Fin (- 1 / 4), Fin (- 1 / 8), Fin (- 1 / 2), Fin (- 1 / 2),
              Fin (- 1), Fin (- 1)]"

definition ex8_nu :: "nat \<Rightarrow> numerics" where
  "ex8_nu k =
     (if k = 1 then \<lparr>n_alpha_f = ex8_af, n_sorted_solid = [6, 7, 0, 4, 1, 5, 2, 3],
                     n_sorted_void = [], n_obj = Fin 10\<rparr>
      else if k = 2 then \<lparr>n_alpha_f = ex8_af, n_sorted_solid = [5, 6, 0, 3, 1, 4, 2],
                     n_sorted_void = [0], n_obj = Fin 9\<rparr>
      else if k = 3 then \<lparr>n_alpha_f = ex8_af, n_sorted_solid = [4, 5, 0, 2, 1, 3],
                     n_sorted_void = [0, 1], n_obj = Fin 8\<rparr>
      else if k = 4 then \<lparr>n_alpha_f = ex8_af, n_sorted_solid = [3, 4, 0, 2, 1],
                     n_sorted_void = [2, 0, 1], n_obj = Fin 7\<rparr>
      else \<lparr>n_alpha_f = ex8_af5, n_sorted_solid = [2, 3, 0, 1],
             n_sorted_void = [0, 3, 1, 2], n_obj = Fin 6\<rparr>)"

definition ex8_am :: "fval list" where
  "ex8_am = [Fin (- 1), Fin (- (1 / 2)), Fin (- (1 / 4)), Fin (- (1 / 8)), Fin (- 1),
             Fin (- (1 / 2)), NInf, NInf]"

definition ex8_am5 :: "fval list" where
  "ex8_am5 = [Fin (- 1), Fin (- (3 / 4)), Fin (- (1 / 4)), Fin (- (1 / 8)), Fin (- (3 / 4)),
              Fin (- (1 / 2)), NInf, NInf]"

definition ex8_state :: "nat \<Rightarrow> state" where
  "ex8_state k =
     (if k = 0 then init_state 8
      else if k = 1 then
        \<lparr>x = [True, True, True, False, True, True, True, True], alpha_m = ex8_am,
         obj_opt = PInf, x_opt = None, waiting = 0, keep_going = True\<rparr>
      else if k = 2 then
        \<lparr>x = [True, True, False, False, True, True, True, True], alpha_m = ex8_am,
         obj_opt = PInf, x_opt = None, waiting = 0, keep_going = True\<rparr>
      else if k = 3 then
        \<lparr>x = [True, True, False, False, True, False, True, True], alpha_m = ex8_am,
         obj_opt = PInf, x_opt = None, waiting = 0, keep_going = True\<rparr>
      else if k = 4 then
        \<lparr>x = [True, False, False, False, True, False, True, True], alpha_m = ex8_am,
         obj_opt = Fin 7, x_opt = Some [True, False, False, False, True, False, True, True],
         waiting = 0, keep_going = True\<rparr>
      else
        \<lparr>x = [True, True, False, False, False, False, True, True], alpha_m = ex8_am5,
         obj_opt = Fin 6, x_opt = Some [True, True, False, False, False, False, True, True],
         waiting = 0, keep_going = True\<rparr>)"

text \<open>The boundary conditions of that mesh, supported and loaded over the full height.\<close>

definition ex8_bc :: bconds where
  "ex8_bc =
     \<lparr>bc_lim = (0, 2), freeDofs = replicate 6 False @ replicate 24 True,
      ld_ele = [6, 7], ld_lim = (6, 7),
      fg = replicate 25 0 @ [- (1 / 4), 0, - (1 / 2), 0, - (1 / 4)],
      fr = replicate 19 0 @ [- (1 / 4), 0, - (1 / 2), 0, - (1 / 4)]\<rparr>"

section \<open>Basic facts\<close>

lemma ebind_Inr: "ebind m f = Inr v \<longleftrightarrow> (\<exists>a. m = Inr a \<and> f a = Inr v)"
  by (cases m) auto

lemma iteration_Inr:
  assumes "iteration N lde nu s = Inr s'"
  shows "\<exists>am u. momentum_step lde (alpha_m s) (n_alpha_f nu) = Inr am \<and>
           update_topology N am (n_sorted_solid nu) (n_sorted_void nu) (x s) = Inr u \<and>
           s' = post_solver N (n_obj nu) (s\<lparr>x := ux u, alpha_m := am\<rparr>)"
  using assms unfolding iteration_def by (auto simp: ebind_Inr)

lemma post_solver_x: "x (post_solver N obj s) = x s"
  by (simp add: post_solver_def Let_def)

lemma reachable_init: "reachable N lde P (init_state N)"
  unfolding reachable_def by (rule run_to_refl)

lemma reachable_step:
  "reachable N lde P s \<Longrightarrow> keep_going s \<Longrightarrow> P s nu \<Longrightarrow> iteration N lde nu s = Inr s'
   \<Longrightarrow> reachable N lde P s'"
  unfolding reachable_def by (rule run_to_step)

lemma reachable_induct [consumes 1, case_names init step]:
  assumes "reachable N lde P s"
    and "Q (init_state N)"
    and "\<And>s nu s'. reachable N lde P s \<Longrightarrow> Q s \<Longrightarrow> keep_going s \<Longrightarrow> P s nu \<Longrightarrow>
           iteration N lde nu s = Inr s' \<Longrightarrow> Q s'"
  shows "Q s"
  using assms(1) unfolding reachable_def
proof (induction rule: run_to.induct)
  case run_to_refl
  show ?case by (rule assms(2))
next
  case (run_to_step s nu s')
  show ?case
    by (rule assms(3)[OF _ run_to_step.IH run_to_step.hyps(2,3,4)])
       (simp add: reachable_def run_to_step.hyps(1))
qed

lemma reachable_run_to:
  assumes "run_to N lde P s s'" and "reachable N lde P s"
  shows "reachable N lde P s'"
  using assms by (induction rule: run_to.induct) (auto intro: reachable_step)

section \<open>The example run\<close>

lemma ex_momentum: "momentum_step [1] [Fin (- 1), NInf] [Fin (- 1), Fin (- 1)] = Inr [Fin (- 1), NInf]"
  by code_simp

lemma ex_update:
  "update_topology 2 [Fin (- 1), NInf] [0] [0] [False, True] =
     Inr \<lparr>ux = [False, True], ucount = 0, ulog = []\<rparr>"
  by code_simp

lemma ex_iter1: "iteration 2 [1] ex_nu1 (init_state 2) = Inr (ex_state 0 True)"
  by code_simp

lemma ex_Vt2: "Vt 2 = 1"
  by (simp add: Vt_def py_int_def)

lemma ex_iter2:
  assumes "k < 19"
  shows "iteration 2 [1] ex_nu2 (ex_state k True) = Inr (ex_state (Suc k) True)"
  using assms ex_momentum ex_update
  by (simp add: iteration_def ex_nu2_def ex_state_def post_solver_def
      volume_def ex_Vt2 small_def patience_def)

lemma ex_iter3: "iteration 2 [1] ex_nu2 (ex_state 19 True) = Inr (ex_state 20 False)"
  using ex_momentum ex_update
  by (simp add: iteration_def ex_nu2_def ex_state_def post_solver_def
      volume_def ex_Vt2 small_def patience_def)

lemma ex_reachable:
  assumes "\<And>s. P s ex_nu1" and "\<And>s. P s ex_nu2"
  shows "k \<le> 19 \<Longrightarrow> reachable 2 [1] P (ex_state k True)"
proof (induction k)
  case 0
  show ?case
  proof (rule reachable_step[where s = "init_state 2" and nu = ex_nu1])
    show "reachable 2 [1] P (init_state 2)" by (rule reachable_init)
    show "keep_going (init_state 2)" by (simp add: init_state_def)
    show "P (init_state 2) ex_nu1" by (rule assms(1))
    show "iteration 2 [1] ex_nu1 (init_state 2) = Inr (ex_state 0 True)" by (rule ex_iter1)
  qed
next
  case (Suc k)
  then have r: "reachable 2 [1] P (ex_state k True)" and k: "k < 19" by simp_all
  show ?case
  proof (rule reachable_step[where s = "ex_state k True" and nu = ex_nu2])
    show "reachable 2 [1] P (ex_state k True)" by (rule r)
    show "keep_going (ex_state k True)" by (simp add: ex_state_def)
    show "P (ex_state k True) ex_nu2" by (rule assms(2))
    show "iteration 2 [1] ex_nu2 (ex_state k True) = Inr (ex_state (Suc k) True)"
      by (rule ex_iter2[OF k])
  qed
qed

lemma ex_reachable_end:
  assumes "\<And>s. P s ex_nu1" and "\<And>s. P s ex_nu2"
  shows "reachable 2 [1] P (ex_state 20 False)"
proof (rule reachable_step[where s = "ex_state 19 True" and nu = ex_nu2])
  show "reachable 2 [1] P (ex_state 19 True)" by (rule ex_reachable[OF assms]) simp
  show "keep_going (ex_state 19 True)" by (simp add: ex_state_def)
  show "P (ex_state 19 True) ex_nu2" by (rule assms(2))
  show "iteration 2 [1] ex_nu2 (ex_state 19 True) = Inr (ex_state 20 False)" by (rule ex_iter3)
qed

section \<open>Convergence\<close>

lemma reachable_waiting:
  assumes "reachable N lde P s"
  shows "(keep_going s \<longleftrightarrow> waiting s \<noteq> patience) \<and> waiting s \<le> patience"
  using assms
proof (induction rule: reachable_induct)
  case init
  then show ?case by (simp add: init_state_def patience_def)
next
  case (step s nu s')
  from iteration_Inr[OF step.hyps(4)] obtain am and u :: upd where
    s': "s' = post_solver N (n_obj nu) (s\<lparr>x := ux u, alpha_m := am\<rparr>)" by blast
  from step.IH step.hyps(2) have "waiting s < patience" by simp
  then show ?case using step.hyps(2) unfolding s'
    by (auto simp: post_solver_def Let_def patience_def)
qed

text \<open>
  Claim C6. In a pass of the loop the convergence check runs only when the volume after
  the topology update equals the target \<open>Vt\<close>; it compares the compliance with the best
  one so far by the strict test \<open>obj < (1 - small) * obj_opt\<close>. Passing the test resets
  the wait counter and replaces the retained best topology and objective; failing it
  increments the counter and leaves them; a pass that ends above the target changes
  nothing. The loop is in its terminal state exactly when the counter has reached
  \<open>patience\<close>.
\<close>

theorem convergence_check:
  assumes "reachable N lde P s" and "keep_going s" and "iteration N lde nu s = Inr s'"
  shows "(volume (x s') = Vt N \<and> flt (n_obj nu) (fmul (Fin (1 - small)) (obj_opt s)) \<longrightarrow>
            waiting s' = 0 \<and> x_opt s' = Some (x s') \<and> obj_opt s' = n_obj nu \<and> keep_going s') \<and>
         (volume (x s') = Vt N \<and> \<not> flt (n_obj nu) (fmul (Fin (1 - small)) (obj_opt s)) \<longrightarrow>
            waiting s' = waiting s + 1 \<and> x_opt s' = x_opt s \<and> obj_opt s' = obj_opt s \<and>
            (keep_going s' \<longleftrightarrow> waiting s + 1 \<noteq> patience)) \<and>
         (volume (x s') \<noteq> Vt N \<longrightarrow>
            waiting s' = waiting s \<and> x_opt s' = x_opt s \<and> obj_opt s' = obj_opt s \<and> keep_going s') \<and>
         (keep_going s' \<longleftrightarrow> waiting s' \<noteq> patience)"
proof -
  from iteration_Inr[OF assms(3)] obtain am and u :: upd where
    s': "s' = post_solver N (n_obj nu) (s\<lparr>x := ux u, alpha_m := am\<rparr>)" by blast
  from reachable_waiting[OF assms(1)] assms(2) have w: "waiting s < patience" by simp
  show ?thesis using w assms(2) unfolding s'
    by (auto simp: post_solver_def Let_def patience_def)
qed

theorem convergence_check_witness:
  "waiting (ex_state 0 True) = 0 \<and> x_opt (ex_state 0 True) = Some (x (ex_state 0 True)) \<and>
   waiting (ex_state 20 False) = waiting (ex_state 19 True) + 1 \<and>
   \<not> keep_going (ex_state 20 False) \<and> waiting (ex_state 20 False) = patience"
proof -
  have r0: "reachable 2 [1] (\<lambda>s nu. True) (init_state 2)" by (rule reachable_init)
  have k0: "keep_going (init_state 2)" by (simp add: init_state_def)
  have r: "reachable 2 [1] (\<lambda>s nu. True) (ex_state 19 True)" by (rule ex_reachable) simp_all
  have k: "keep_going (ex_state 19 True)" by (simp add: ex_state_def)
  show ?thesis
    using convergence_check[OF r0 k0 ex_iter1] convergence_check[OF r k ex_iter3]
    by (simp add: ex_state_def ex_nu1_def ex_nu2_def init_state_def volume_def ex_Vt2 small_def
        inf_sign_def patience_def)
qed

lemma flt_simps2 [simp]: "flt PInf b = False" "flt a NInf = False" "flt a NaN = False"
  by (cases b; simp) (cases a; simp)+

lemma flt_trans: "flt a b \<Longrightarrow> flt b c \<Longrightarrow> flt a c"
  by (cases a; cases b; cases c) auto

lemma reachable_obj_opt_nonneg:
  assumes "reachable N lde obj_nonneg s"
  shows "obj_opt s = PInf \<or> (\<exists>r\<ge>0. obj_opt s = Fin r)"
  using assms
proof (induction rule: reachable_induct)
  case init
  then show ?case by (simp add: init_state_def)
next
  case (step s nu s')
  from iteration_Inr[OF step.hyps(4)] obtain am and u :: upd where
    s': "s' = post_solver N (n_obj nu) (s\<lparr>x := ux u, alpha_m := am\<rparr>)" by blast
  have o: "\<not> flt (n_obj nu) (Fin 0)" using step.hyps(3) by (simp add: obj_nonneg_def)
  have "obj_opt s' = obj_opt s \<or>
        (obj_opt s' = n_obj nu \<and> flt (n_obj nu) (fmul (Fin (1 - small)) (obj_opt s)))"
    unfolding s' by (simp add: post_solver_def Let_def)
  then show ?case
  proof
    assume "obj_opt s' = obj_opt s" then show ?thesis using step.IH by simp
  next
    assume a: "obj_opt s' = n_obj nu \<and> flt (n_obj nu) (fmul (Fin (1 - small)) (obj_opt s))"
    show ?thesis using a o step.IH
      by (cases "n_obj nu") (auto simp: inf_sign_def small_def)
  qed
qed

lemma post_solver_obj_opt:
  assumes "obj_opt s = PInf \<or> (\<exists>r\<ge>0. obj_opt s = Fin r)" and "\<not> flt obj (Fin 0)"
  shows "obj_opt (post_solver N obj s) = obj_opt s \<or> flt (obj_opt (post_solver N obj s)) (obj_opt s)"
proof (cases "volume (x s) = Vt N \<and> flt obj (fmul (Fin (1 - small)) (obj_opt s))")
  case False
  then show ?thesis by (auto simp: post_solver_def Let_def)
next
  case True
  then have e: "obj_opt (post_solver N obj s) = obj" by (simp add: post_solver_def)
  have s1: "(0::real) < 1 - small" by (simp add: small_def)
  have "flt obj (obj_opt s)"
  proof (cases obj)
    case (Fin a)
    from assms(1) show ?thesis
    proof
      assume "obj_opt s = PInf" then show ?thesis using Fin by simp
    next
      assume "\<exists>r\<ge>0. obj_opt s = Fin r"
      then obtain r where r: "0 \<le> r" "obj_opt s = Fin r" by blast
      from True r Fin have "a < (1 - small) * r" by simp
      also have "\<dots> \<le> r" using r(1) by (simp add: small_def mult_left_le_one_le)
      finally show ?thesis using r Fin by simp
    qed
  qed (use True assms in \<open>auto simp: inf_sign_def\<close>)
  then show ?thesis using e by simp
qed

text \<open>
  Claim C7. The retained best objective starts at plus infinity, and between any two
  points of one run it either keeps its value or has become strictly smaller: every
  reassignment lowers it. The compliance values of the run are taken to be non-negative.
\<close>

theorem obj_opt_monotone:
  assumes "run_to N lde obj_nonneg s s'" and "reachable N lde obj_nonneg s"
  shows "obj_opt (init_state N) = PInf \<and>
         (obj_opt s' = obj_opt s \<or> flt (obj_opt s') (obj_opt s))"
proof -
  have "obj_opt s' = obj_opt s \<or> flt (obj_opt s') (obj_opt s)"
    using assms
  proof (induction rule: run_to.induct)
    case run_to_refl
    then show ?case by simp
  next
    case (run_to_step s1 nu s2)
    have r1: "reachable N lde obj_nonneg s1"
      by (rule reachable_run_to[OF run_to_step.hyps(1) run_to_step.prems])
    from iteration_Inr[OF run_to_step.hyps(4)] obtain am and u :: upd where
      s2: "s2 = post_solver N (n_obj nu) (s1\<lparr>x := ux u, alpha_m := am\<rparr>)" by blast
    have "obj_opt s2 = obj_opt s1 \<or> flt (obj_opt s2) (obj_opt s1)"
      unfolding s2
      using post_solver_obj_opt[of "s1\<lparr>x := ux u, alpha_m := am\<rparr>" "n_obj nu" N]
        reachable_obj_opt_nonneg[OF r1] run_to_step.hyps(3)
      by (simp add: obj_nonneg_def)
    then show ?case using run_to_step.IH[OF run_to_step.prems] by (auto intro: flt_trans)
  qed
  then show ?thesis by (simp add: init_state_def)
qed

theorem obj_opt_monotone_witness:
  "obj_opt (init_state 2) = PInf \<and> flt (obj_opt (ex_state 20 False)) (obj_opt (init_state 2))"
proof -
  have r: "run_to 2 [1] obj_nonneg (init_state 2) (ex_state 20 False)"
    using ex_reachable_end[of obj_nonneg]
    by (simp add: reachable_def obj_nonneg_def ex_nu1_def ex_nu2_def)
  show ?thesis using obj_opt_monotone[OF r reachable_init]
    by (simp add: ex_state_def init_state_def)
qed




section \<open>The boundary-condition stage\<close>

lemma ebind_Inl: "ebind m f = Inl e \<longleftrightarrow> m = Inl e \<or> (\<exists>a. m = Inr a \<and> f a = Inl e)"
  by (cases m) auto

lemma py_get_Inl: "py_get xs i = Inl e \<Longrightarrow> e = IndexError"
  by (auto simp: py_get_def split: if_splits)

lemma np_assign_Inl: "np_assign xs ids v = Inl e \<Longrightarrow> e = IndexError"
  by (auto simp: np_assign_def split: if_splits)

lemma load_vector_Inl: "load_vector G n ids = Inl e \<Longrightarrow> e = IndexError"
  by (auto simp: load_vector_def Let_def ebind_Inl split: if_splits
      dest: py_get_Inl np_assign_Inl)

lemma load_stage_Inl: "load_stage Ny ld_pos ld_rad = Inl e \<Longrightarrow> e = IndexError"
  by (auto simp: load_stage_def Let_def ebind_Inl dest: py_get_Inl load_vector_Inl)

lemma volume_map_upt: "volume (map f [0..<n]) = card {j. j < n \<and> f j}"
proof -
  have "volume (map f [0..<n]) = length (filter f [0..<n])"
    by (simp add: volume_def filter_map comp_def)
  also have "\<dots> = card (set (filter f [0..<n]))"
    by (rule distinct_card[symmetric]) simp
  also have "set (filter f [0..<n]) = {j. j < n \<and> f j}" by auto
  finally show ?thesis .
qed

lemma length_filter_nth_map:
  "length (filter (\<lambda>j. map f [0..<n] ! j) [0..<n]) = volume (map f [0..<n])"
proof -
  have "filter (\<lambda>j. map f [0..<n] ! j) [0..<n] = filter f [0..<n]"
    by (rule filter_cong) auto
  then show ?thesis by (simp add: volume_def filter_map comp_def)
qed

lemma free_dofs_stage_ok:
  assumes "2 \<le> volume (bc_mask Ny bc_pos bc_rad)"
  shows "\<exists>r. free_dofs_stage Ny bc_pos bc_rad = Inr r"
proof -
  let ?bcm = "bc_mask Ny bc_pos bc_rad"
  let ?ids = "filter (\<lambda>j. ?bcm ! j) [0..<Ny + 1]"
  have len: "length ?ids = volume ?bcm"
    unfolding bc_mask_def by (rule length_filter_nth_map)
  with assms have l2: "2 \<le> length ?ids" by simp
  have g0: "\<exists>b. py_get ?ids 0 = Inr b" using l2 by (simp add: py_get_def)
  have g1: "\<exists>b. py_get ?ids (- 1) = Inr b" using l2 by (simp add: py_get_def)
  have "\<forall>i \<in> set ?ids. i \<le> Ny" by auto
  then have rng: "\<forall>i \<in> set (map (\<lambda>i. 2 * i) ?ids @ map (\<lambda>i. 2 * i + 1) ?ids).
      i < length (replicate (2 * (2 * Ny + 1) * (Ny + 1)) True)"
    by (auto simp: algebra_simps) 
  have as: "\<exists>fd. np_assign (replicate (2 * (2 * Ny + 1) * (Ny + 1)) True)
              (map (\<lambda>i. 2 * i) ?ids @ map (\<lambda>i. 2 * i + 1) ?ids) False = Inr fd"
    unfolding np_assign_def using rng by simp
  from g0 g1 as assms show ?thesis
    unfolding free_dofs_stage_def Let_def by (auto simp: not_less)
qed

lemma bc_mask_card:
  assumes "0 < Ny"
  shows "volume (bc_mask Ny bc_pos bc_rad) =
         card {j. j \<le> Ny \<and> \<bar>(Ly / real Ny) * real j - 0.5 * Ly - bc_pos * Ly\<bar> < bc_rad * Ly + small}"
proof -
  have "{j. j < Ny + 1 \<and> in_band (coor_y Ny j) bc_pos bc_rad} =
        {j. j \<le> Ny \<and> \<bar>(Ly / real Ny) * real j - 0.5 * Ly - bc_pos * Ly\<bar> < bc_rad * Ly + small}"
    by (auto simp: in_band_def coor_y_def)
  then show ?thesis unfolding bc_mask_def volume_map_upt by simp
qed

text \<open>
  Claim C5. For a mesh (\<open>Ny > 0\<close>), the instance fails with the insufficient-constraint
  error exactly when fewer than two nodes of the left edge lie in the support band
  \<open>|y - bc_pos*Ly| < bc_rad*Ly + small\<close>. The failure is the result of the set-up of the
  instance: no optimisation state is produced.
\<close>

theorem insufficient_constraint_iff:
  assumes "0 < Ny"
  shows "optimization_setup Ny bc_pos bc_rad ld_pos ld_rad = Inl InsufficientConstraint \<longleftrightarrow>
         card {j. j \<le> Ny \<and> \<bar>(Ly / real Ny) * real j - 0.5 * Ly - bc_pos * Ly\<bar> < bc_rad * Ly + small} < 2"
proof (cases "volume (bc_mask Ny bc_pos bc_rad) < 2")
  case True
  then have "free_dofs_stage Ny bc_pos bc_rad = Inl InsufficientConstraint"
    by (simp add: free_dofs_stage_def Let_def)
  then have "optimization_setup Ny bc_pos bc_rad ld_pos ld_rad = Inl InsufficientConstraint"
    using assms by (simp add: optimization_setup_def boundary_conditions_def)
  then show ?thesis using True bc_mask_card[OF assms] by simp
next
  case False
  then obtain r where r: "free_dofs_stage Ny bc_pos bc_rad = Inr r"
    using free_dofs_stage_ok[of Ny bc_pos bc_rad] by auto
  have "optimization_setup Ny bc_pos bc_rad ld_pos ld_rad \<noteq> Inl InsufficientConstraint"
    using assms r
    by (auto simp: optimization_setup_def boundary_conditions_def ebind_Inl split: prod.splits
        dest: load_stage_Inl)
  then show ?thesis using False bc_mask_card[OF assms] by simp
qed

theorem insufficient_constraint_iff_witness:
  "optimization_setup 2 0 (1 / 8) 0 (1 / 2) = Inl InsufficientConstraint \<and>
   optimization_setup 2 0 (1 / 2) 0 (1 / 2) \<noteq> Inl InsufficientConstraint"
proof -
  have a: "optimization_setup 2 0 (1 / 8) 0 (1 / 2) = Inl InsufficientConstraint" by code_simp
  have b: "optimization_setup 2 0 (1 / 2) 0 (1 / 2) \<noteq> Inl InsufficientConstraint" by code_simp
  have n: "(0::nat) < 2" by simp
  show ?thesis
    using insufficient_constraint_iff[OF n, of 0 "1 / 8" 0 "1 / 2"]
      insufficient_constraint_iff[OF n, of 0 "1 / 2" 0 "1 / 2"] a b by simp
qed

lemma load_stage_empty:
  assumes "volume (ld_mask Ny ld_pos ld_rad) = 0"
  shows "load_stage Ny ld_pos ld_rad = Inl IndexError"
proof -
  let ?ldm = "ld_mask Ny ld_pos ld_rad"
  have len: "length ?ldm = Ny + 1" by (simp add: ld_mask_def)
  have "filter (\<lambda>b. b) ?ldm = []" using assms by (simp add: volume_def)
  then have all: "\<forall>b\<in>set ?ldm. \<not> b" by (simp add: filter_empty_conv)
  have f: "\<not> ?ldm ! j" if "j < Ny + 1" for j
    using all that len by (metis nth_mem)
  have "filter (\<lambda>j. map (\<lambda>j. ?ldm ! (j + 1) \<or> ?ldm ! j) [0..<Ny] ! j) [0..<Ny] = []"
    using f by (simp add: filter_empty_conv)
  then show ?thesis
    by (simp add: load_stage_def Let_def py_get_def)
qed

text \<open>
  Claim C3, the case of no loaded node. With the support band covering the left edge and
  the load band centred between two nodes of the right edge and narrower than their
  distance (\<open>Ny = 2\<close>, \<open>ld_pos = 1/4\<close>, \<open>ld_rad = 1/8\<close>) no node is loaded, and the stage
  does not complete with a zero load vector: reading \<^verbatim>\<open>ld_ele[0]\<close> (line 285) raises
  before the branch \<^verbatim>\<open>ld_num == 0\<close> is reached.
\<close>

theorem zero_load_raises:
  "volume (ld_mask 2 (1 / 4) (1 / 8)) = 0 \<and>
   boundary_conditions 2 0 (1 / 2) (1 / 4) (1 / 8) = Inl IndexError"
  by code_simp

section \<open>The topology update\<close>

lemma py_get_nat: "i < length xs \<Longrightarrow> py_get xs (int i) = Inr (xs ! i)"
  by (simp add: py_get_def)

lemma py_get_neg:
  assumes "i < length xs"
  shows "py_get xs (- 1 - int i) = Inr (xs ! (length xs - 1 - i))"
proof -
  have "nat (int (length xs) + (- 1 - int i)) = length xs - 1 - i"
    using assms by linarith
  then show ?thesis using assms by (simp add: py_get_def)
qed

lemma py_get_neg2:
  "i + c < length xs \<Longrightarrow> py_get xs (- 1 - int i - int c) = Inr (xs ! (length xs - 1 - (i + c)))"
  using py_get_neg[of "i + c" xs] by (simp add: algebra_simps)

lemma sort_upt_props:
  assumes "sort ss = [0..<L]"
  shows "length ss = L" and "distinct ss" and "set ss = {..<L}"
proof -
  have "length (sort ss) = length ss" by (rule length_sort)
  then show "length ss = L" using assms by simp
  have "distinct (sort ss) = distinct ss" by (rule distinct_sort)
  then show "distinct ss" using assms by simp
  have "set (sort ss) = set ss" by (rule set_sort)
  then show "set ss = {..<L}" using assms by (simp add: atLeast0LessThan)
qed

lemma solid_props:
  "distinct (solid xs)" "set (solid xs) = {e. e < length xs \<and> xs ! e}"
  "length (solid xs) = volume xs"
proof -
  show "distinct (solid xs)" by (simp add: solid_def)
  show "set (solid xs) = {e. e < length xs \<and> xs ! e}" by (auto simp: solid_def)
  have "length (filter (\<lambda>b. b) (map ((!) xs) [0..<length xs])) =
        length (filter (\<lambda>e. xs ! e) [0..<length xs])"
    by (simp add: filter_map comp_def)
  then show "length (solid xs) = volume xs" by (simp add: solid_def volume_def map_nth)
qed

lemma void_props:
  "distinct (void xs)" "set (void xs) = {e. e < length xs \<and> \<not> xs ! e}"
  "length (void xs) = length xs - volume xs"
proof -
  show "distinct (void xs)" by (simp add: void_def)
  show "set (void xs) = {e. e < length xs \<and> \<not> xs ! e}" by (auto simp: void_def)
  have "length (solid xs) + length (void xs) = length [0..<length xs]"
    unfolding solid_def void_def by (rule sum_length_filter_compl)
  then show "length (void xs) = length xs - volume xs"
    by (simp add: solid_props(3))
qed

lemma upd_eq: "(s::upd) = \<lparr>ux = ux s, ucount = ucount s, ulog = ulog s\<rparr>"
  by simp

lemma remove_body_ok:
  assumes "i < length ss" and "ss ! (length ss - 1 - i) < length sol"
    and "es_at sol ss i < length (ux s)"
  shows "remove_body sol ss i s =
           Inr (s\<lparr>ux := (ux s)[es_at sol ss i := False],
                  ulog := ulog s @ [(es_at sol ss i, True)], ucount := ucount s + 1\<rparr>)"
  using assms by (simp add: remove_body_def py_get_neg py_get_nat py_set_def es_at_def)

lemma changing_loop:
  assumes "n \<le> length ss" and "\<forall>j<length ss. ss ! j < length sol"
    and "\<forall>j<length sol. sol ! j < K"
  shows "i \<le> n \<Longrightarrow> length (ux s) = K \<Longrightarrow>
         for_each [i..<n] (remove_body sol ss) s =
           Inr \<lparr>ux = fold (\<lambda>k x. x[es_at sol ss k := False]) [i..<n] (ux s),
                ucount = ucount s + (n - i),
                ulog = ulog s @ map (\<lambda>k. (es_at sol ss k, True)) [i..<n]\<rparr>"
proof (induction "n - i" arbitrary: i s)
  case 0
  then have "i = n" by simp
  then show ?case by simp
next
  case (Suc d)
  then have lt: "i < n" by simp
  then have il: "i < length ss" using assms(1) by simp
  then have j: "ss ! (length ss - 1 - i) < length sol" using assms(2) by simp
  then have e: "es_at sol ss i < length (ux s)"
    using assms(3) Suc.prems(2) by (simp add: es_at_def)
  let ?s = "s\<lparr>ux := (ux s)[es_at sol ss i := False],
                ulog := ulog s @ [(es_at sol ss i, True)], ucount := ucount s + 1\<rparr>"
  have d: "d = n - Suc i" using Suc.hyps(2) by simp
  have ih: "for_each [Suc i..<n] (remove_body sol ss) ?s =
           Inr \<lparr>ux = fold (\<lambda>k x. x[es_at sol ss k := False]) [Suc i..<n] (ux ?s),
                ucount = ucount ?s + (n - Suc i),
                ulog = ulog ?s @ map (\<lambda>k. (es_at sol ss k, True)) [Suc i..<n]\<rparr>"
    by (rule Suc.hyps(1)[OF d]) (use lt Suc.prems(2) in simp_all)
  show ?case using lt ih remove_body_ok[OF il j e]
    by (simp add: upt_conv_Cons)
qed

lemma fold_update_length:
  "length (fold (\<lambda>k x. x[f k := v]) ks ys) = length ys"
  by (induction ks arbitrary: ys) simp_all

lemma fold_update_nth:
  "e < length ys \<Longrightarrow>
   fold (\<lambda>k x. x[f k := v]) ks ys ! e = (if e \<in> f ` set ks then v else ys ! e)"
  by (induction ks arbitrary: ys) (auto simp: nth_list_update)

lemma fold_update2_length:
  "length (fold (\<lambda>k x. x[f k := a, g k := b]) ks ys) = length ys"
  by (induction ks arbitrary: ys) simp_all

lemma fold_update2_nth:
  assumes "e < length ys" and "\<forall>k \<in> set ks. \<forall>k' \<in> set ks. f k \<noteq> g k'"
  shows "fold (\<lambda>k x. x[f k := a, g k := b]) ks ys ! e =
         (if e \<in> g ` set ks then b else if e \<in> f ` set ks then a else ys ! e)"
  using assms
proof (induction ks arbitrary: ys)
  case Nil
  then show ?case by simp
next
  case (Cons k ks)
  have "fold (\<lambda>k x. x[f k := a, g k := b]) ks (ys[f k := a, g k := b]) ! e =
        (if e \<in> g ` set ks then b else if e \<in> f ` set ks then a
         else (ys[f k := a, g k := b]) ! e)"
    by (rule Cons.IH) (use Cons.prems in auto)
  then show ?case using Cons.prems by (auto simp: nth_list_update)
qed

lemma swap_body_ok:
  assumes "i + ucount s < length ss" and "ss ! (length ss - 1 - (i + ucount s)) < length sol"
    and "i < length sv" and "sv ! i < length vd"
    and "es_at sol ss (i + ucount s) < length am" and "ev_at vd sv i < length am"
    and "length (ux s) = length am"
  shows "swap_body am sol vd ss sv i s =
           (if flt (am ! es_at sol ss (i + ucount s)) (am ! ev_at vd sv i) then Inr None
            else Inr (Some (s\<lparr>ux := (ux s)[es_at sol ss (i + ucount s) := False,
                                           ev_at vd sv i := True],
                  ulog := ulog s @ [(es_at sol ss (i + ucount s), True),
                                    (ev_at vd sv i, False)]\<rparr>)))"
  using assms
  by (simp add: swap_body_def py_get_neg2 py_get_nat py_set_def es_at_def ev_at_def)

lemma swapping_loop:
  assumes "n + c \<le> length ss" and "\<forall>j<length ss. ss ! j < length sol"
    and "\<forall>j<length sol. sol ! j < length am"
    and "n \<le> length sv" and "\<forall>j<length sv. sv ! j < length vd"
    and "\<forall>j<length vd. vd ! j < length am"
  shows "i \<le> n \<Longrightarrow> length (ux s) = length am \<Longrightarrow> ucount s = c \<Longrightarrow>
         \<exists>m. i \<le> m \<and> m \<le> n \<and>
           for_each_break [i..<n] (swap_body am sol vd ss sv) s =
             Inr \<lparr>ux = fold (\<lambda>k x. x[es_at sol ss (k + c) := False, ev_at vd sv k := True])
                         [i..<m] (ux s),
                  ucount = c,
                  ulog = ulog s @ concat (map (\<lambda>k. [(es_at sol ss (k + c), True),
                                                     (ev_at vd sv k, False)]) [i..<m])\<rparr> \<and>
           (\<forall>k. i \<le> k \<and> k < m \<longrightarrow> \<not> flt (am ! es_at sol ss (k + c)) (am ! ev_at vd sv k)) \<and>
           (m < n \<longrightarrow> flt (am ! es_at sol ss (m + c)) (am ! ev_at vd sv m))"
proof (induction "n - i" arbitrary: i s)
  case 0
  then have "i = n" by simp
  then show ?case using 0 by (intro exI[of _ n]) auto
next
  case (Suc d)
  then have lt: "i < n" by simp
  have c: "ucount s = c" by (rule Suc.prems(3))
  have a1: "i + ucount s < length ss" using lt assms(1) c by simp
  then have a2: "ss ! (length ss - 1 - (i + ucount s)) < length sol" using assms(2) by simp
  have a3: "i < length sv" using lt assms(4) by simp
  then have a4: "sv ! i < length vd" using assms(5) by simp
  have a5: "es_at sol ss (i + ucount s) < length am"
    using a2 assms(3) by (simp add: es_at_def)
  have a6: "ev_at vd sv i < length am" using a4 assms(6) by (simp add: ev_at_def)
  note body = swap_body_ok[OF a1 a2 a3 a4 a5 a6 Suc.prems(2)]
  show ?case
  proof (cases "flt (am ! es_at sol ss (i + c)) (am ! ev_at vd sv i)")
    case True
    then show ?thesis using lt body c
      by (intro exI[of _ i]) (auto simp: upt_conv_Cons)
  next
    case False
    let ?s = "s\<lparr>ux := (ux s)[es_at sol ss (i + c) := False, ev_at vd sv i := True],
                  ulog := ulog s @ [(es_at sol ss (i + c), True), (ev_at vd sv i, False)]\<rparr>"
    have d: "d = n - Suc i" using Suc.hyps(2) by simp
    from Suc.hyps(1)[OF d, of ?s] lt Suc.prems(2) c
    obtain m where m: "Suc i \<le> m" "m \<le> n"
      "for_each_break [Suc i..<n] (swap_body am sol vd ss sv) ?s =
             Inr \<lparr>ux = fold (\<lambda>k x. x[es_at sol ss (k + c) := False, ev_at vd sv k := True])
                         [Suc i..<m] (ux ?s),
                  ucount = c,
                  ulog = ulog ?s @ concat (map (\<lambda>k. [(es_at sol ss (k + c), True),
                                                     (ev_at vd sv k, False)]) [Suc i..<m])\<rparr>"
      "\<forall>k. Suc i \<le> k \<and> k < m \<longrightarrow> \<not> flt (am ! es_at sol ss (k + c)) (am ! ev_at vd sv k)"
      "m < n \<longrightarrow> flt (am ! es_at sol ss (m + c)) (am ! ev_at vd sv m)"
      by auto
    have im: "i < m" using m(1) by simp
    have all: "\<forall>k. i \<le> k \<and> k < m \<longrightarrow> \<not> flt (am ! es_at sol ss (k + c)) (am ! ev_at vd sv k)"
    proof (intro allI impI)
      fix k assume k: "i \<le> k \<and> k < m"
      show "\<not> flt (am ! es_at sol ss (k + c)) (am ! ev_at vd sv k)"
      proof (cases "k = i")
        case True then show ?thesis using False by simp
      next
        case False then show ?thesis using k m(4) by simp
      qed
    qed
    show ?thesis
      using lt False body c m(2,3,5) im all
      by (intro exI[of _ m]) (simp add: upt_conv_Cons)
  qed
qed

section \<open>Arithmetic of the caps\<close>

lemma Vt_div: "Vt N = N div 2"
proof -
  have "\<lfloor>real N / 2\<rfloor> = int (N div 2)"
    using floor_divide_of_nat_eq[of N 2, where ?'a = real] by simp
  then show ?thesis by (simp add: Vt_def py_int_def)
qed

lemma dVmax_le_dXmax: "real (dVmax N) \<le> dXmax N"
proof -
  have "real (nat \<lfloor>real N / 64\<rfloor>) = real_of_int \<lfloor>real N / 64\<rfloor>" by simp
  also have "\<dots> \<le> real N / 64" by (rule of_int_floor_le)
  finally have "real (nat \<lfloor>real N / 64\<rfloor>) \<le> real N / 64" .
  then show ?thesis by (simp add: dVmax_def dXmax_def VV_def TV_def py_int_def max_def)
qed

lemma py_int_bound: "real (nat (py_int r)) \<le> max 0 r"
proof (cases "0 \<le> r")
  case True
  then have "real (nat \<lfloor>r\<rfloor>) = real_of_int \<lfloor>r\<rfloor>" by simp
  also have "\<dots> \<le> r" by (rule of_int_floor_le)
  finally show ?thesis using True by (simp add: py_int_def)
next
  case False
  then have "\<lceil>r\<rceil> \<le> 0" by (simp add: ceiling_le_zero)
  then show ?thesis using False by (simp add: py_int_def)
qed

lemma swap_bound:
  fixes c :: nat
  assumes "b = nat (min (int l) (py_int ((dXmax N - real c) / 2)))" and "c \<le> dVmax N"
  shows "b \<le> l" and "2 * real b \<le> dXmax N - real c"
proof -
  show "b \<le> l" using assms(1) by simp
  have c: "real c \<le> dXmax N" using assms(2) dVmax_le_dXmax[of N] by simp
  have "b \<le> nat (py_int ((dXmax N - real c) / 2))" using assms(1) by simp
  then have "real b \<le> real (nat (py_int ((dXmax N - real c) / 2)))" by simp
  also have "\<dots> \<le> max 0 ((dXmax N - real c) / 2)" by (rule py_int_bound)
  also have "\<dots> = (dXmax N - real c) / 2" using c by simp
  finally show "2 * real b \<le> dXmax N - real c" by simp
qed

lemma half_dXmax_le_Vt:
  assumes "2 \<le> N"
  shows "dXmax N / 2 \<le> real (Vt N)"
proof -
  have "2 * (N div 2) + 1 \<ge> N" by presburger
  then have h: "real N \<le> 2 * real (N div 2) + 1"
    by linarith
  have o: "1 \<le> real (N div 2)" using assms by (simp add: Suc_le_eq)
  have "real N / 64 \<le> real (N div 2)" using h o by simp
  then show ?thesis using o by (simp add: dXmax_def TV_def Vt_div max_def)
qed

section \<open>The selected elements\<close>

lemma es_at_props:
  assumes "sort ss = [0..<volume x0]"
  shows "\<forall>k<volume x0. es_at (solid x0) ss k < length x0 \<and> x0 ! es_at (solid x0) ss k"
    and "inj_on (es_at (solid x0) ss) {..<volume x0}"
proof -
  let ?L = "volume x0"
  note p = sort_upt_props[OF assms]
  have rng: "ss ! (length ss - 1 - k) < ?L" if "k < ?L" for k
  proof -
    have "ss ! (length ss - 1 - k) \<in> set ss" using that p(1) by (intro nth_mem) simp
    then show ?thesis using p(3) by simp
  qed
  show "\<forall>k<?L. es_at (solid x0) ss k < length x0 \<and> x0 ! es_at (solid x0) ss k"
  proof (intro allI impI)
    fix k assume k: "k < ?L"
    have "solid x0 ! (ss ! (length ss - 1 - k)) \<in> set (solid x0)"
      using rng[OF k] by (intro nth_mem) (simp add: solid_props(3))
    then show "es_at (solid x0) ss k < length x0 \<and> x0 ! es_at (solid x0) ss k"
      by (simp add: solid_props(2) es_at_def)
  qed
  show "inj_on (es_at (solid x0) ss) {..<?L}"
  proof (rule inj_onI)
    fix a b assume a: "a \<in> {..<?L}" and b: "b \<in> {..<?L}"
      and e: "es_at (solid x0) ss a = es_at (solid x0) ss b"
    have "ss ! (length ss - 1 - a) = ss ! (length ss - 1 - b)"
      using e rng[of a] rng[of b] a b solid_props(1)[of x0]
      by (simp add: es_at_def nth_eq_iff_index_eq solid_props(3))
    then have "length ss - 1 - a = length ss - 1 - b"
      using p(1,2) a b by (simp add: nth_eq_iff_index_eq)
    then show "a = b" using a b p(1) by simp
  qed
qed

lemma ev_at_props:
  assumes "sort sv = [0..<length x0 - volume x0]"
  shows "\<forall>k<length x0 - volume x0. ev_at (void x0) sv k < length x0 \<and> \<not> x0 ! ev_at (void x0) sv k"
    and "inj_on (ev_at (void x0) sv) {..<length x0 - volume x0}"
proof -
  let ?M = "length x0 - volume x0"
  note p = sort_upt_props[OF assms]
  have rng: "sv ! k < ?M" if "k < ?M" for k
  proof -
    have "sv ! k \<in> set sv" using that p(1) by (intro nth_mem) simp
    then show ?thesis using p(3) by simp
  qed
  show "\<forall>k<?M. ev_at (void x0) sv k < length x0 \<and> \<not> x0 ! ev_at (void x0) sv k"
  proof (intro allI impI)
    fix k assume k: "k < ?M"
    have "void x0 ! (sv ! k) \<in> set (void x0)"
      using rng[OF k] by (intro nth_mem) (simp add: void_props(3))
    then show "ev_at (void x0) sv k < length x0 \<and> \<not> x0 ! ev_at (void x0) sv k"
      by (simp add: void_props(2) ev_at_def)
  qed
  show "inj_on (ev_at (void x0) sv) {..<?M}"
  proof (rule inj_onI)
    fix a b assume a: "a \<in> {..<?M}" and b: "b \<in> {..<?M}"
      and e: "ev_at (void x0) sv a = ev_at (void x0) sv b"
    have "sv ! a = sv ! b"
      using e rng[of a] rng[of b] a b void_props(1)[of x0]
      by (simp add: ev_at_def nth_eq_iff_index_eq void_props(3))
    then show "a = b" using p(1,2) a b by (simp add: nth_eq_iff_index_eq)
  qed
qed

lemma solid_nth_less: "j < length (solid x0) \<Longrightarrow> solid x0 ! j < length x0"
  using nth_mem[of j "solid x0"] by (simp add: solid_props(2))

lemma void_nth_less: "j < length (void x0) \<Longrightarrow> void x0 ! j < length x0"
  using nth_mem[of j "void x0"] by (simp add: void_props(2))

lemma changing_volume_char:
  assumes "Vt N \<le> volume x0" and "sort ss = [0..<volume x0]"
  shows "changing_volume N (solid x0) ss x0 =
           Inr (removed_upd (solid x0) ss x0 (min (volume x0 - Vt N) (dVmax N)))"
proof -
  let ?c = "min (volume x0 - Vt N) (dVmax N)"
  note p = sort_upt_props[OF assms(2)]
  have "int (volume x0) - int (Vt N) = int (volume x0 - Vt N)"
    using assms(1) by simp
  then have "min (int (volume x0) - int (Vt N)) (int (dVmax N)) = int ?c"
    by (simp only: of_nat_min)
  then have n: "nat (min (int (volume x0) - int (Vt N)) (int (dVmax N))) = ?c"
    by (simp only: nat_int)
  have c: "?c \<le> length ss" using p(1) by simp
  have r1: "\<forall>j<length ss. ss ! j < length (solid x0)"
  proof (intro allI impI)
    fix j assume "j < length ss"
    then have "ss ! j \<in> set ss" by (rule nth_mem)
    then show "ss ! j < length (solid x0)" using p(3) by (simp add: solid_props(3))
  qed
  have r2: "\<forall>j<length (solid x0). solid x0 ! j < length x0"
    by (simp add: solid_nth_less)
  have z: "0 \<le> ?c" by simp
  have l: "length (ux \<lparr>ux = x0, ucount = 0, ulog = []\<rparr>) = length x0" by simp
  note cl = changing_loop[OF c r1 r2 z l]
  have e: "\<lparr>ux = fold (\<lambda>k x. x[es_at (solid x0) ss k := False]) [0..<?c]
               (ux \<lparr>ux = x0, ucount = 0, ulog = []\<rparr>),
           ucount = ucount \<lparr>ux = x0, ucount = 0, ulog = []\<rparr> + (?c - 0),
           ulog = ulog \<lparr>ux = x0, ucount = 0, ulog = []\<rparr> @
                  map (\<lambda>k. (es_at (solid x0) ss k, True)) [0..<?c]\<rparr> =
          removed_upd (solid x0) ss x0 ?c"
    unfolding removed_upd_def by simp
  show ?thesis
    unfolding changing_volume_def n using cl e by (simp only:)
qed

lemma constant_volume_char:
  assumes "2 \<le> N" and "length x0 = N" and "Vt N \<le> volume x0" and "length am = N"
    and "sort ss = [0..<volume x0]" and "sort sv = [0..<N - volume x0]"
    and "ucount u = min (volume x0 - Vt N) (dVmax N)" and "length (ux u) = N"
  shows "\<exists>m\<le>swap_limit N (length sv) (ucount u).
           constant_volume N am (solid x0) (void x0) ss sv u =
             Inr (swapped_upd (solid x0) (void x0) ss sv u m) \<and>
           (\<forall>k<m. \<not> flt (am ! es_at (solid x0) ss (k + ucount u)) (am ! ev_at (void x0) sv k)) \<and>
           (m < swap_limit N (length sv) (ucount u) \<longrightarrow>
              flt (am ! es_at (solid x0) ss (m + ucount u)) (am ! ev_at (void x0) sv m))"
proof -
  let ?c = "ucount u"
  let ?b = "swap_limit N (length sv) ?c"
  note ps = sort_upt_props[OF assms(5)]
  note pv = sort_upt_props[OF assms(6)]
  have cd: "?c \<le> dVmax N" using assms(7) by simp
  note sb = swap_bound[OF swap_limit_def cd]
  have "real ?b \<le> dXmax N / 2" using sb(2)[of "length sv"] by simp
  also have "\<dots> \<le> real (Vt N)" by (rule half_dXmax_le_Vt[OF assms(1)])
  finally have bv: "?b \<le> Vt N" by simp
  have bc: "?b + ?c \<le> length ss" using bv assms(3,7) ps(1) by simp
  have r1: "\<forall>j<length ss. ss ! j < length (solid x0)"
  proof (intro allI impI)
    fix j assume "j < length ss"
    then have "ss ! j \<in> set ss" by (rule nth_mem)
    then show "ss ! j < length (solid x0)" using ps(3) by (simp add: solid_props(3))
  qed
  have r2: "\<forall>j<length (solid x0). solid x0 ! j < length am"
    using solid_nth_less[of _ x0] assms(2,4) by simp
  have r3: "\<forall>j<length sv. sv ! j < length (void x0)"
  proof (intro allI impI)
    fix j assume "j < length sv"
    then have "sv ! j \<in> set sv" by (rule nth_mem)
    then show "sv ! j < length (void x0)" using pv(3) assms(2) by (simp add: void_props(3))
  qed
  have r4: "\<forall>j<length (void x0). void x0 ! j < length am"
    using void_nth_less[of _ x0] assms(2,4) by simp
  have lu: "length (ux u) = length am" using assms(4,8) by simp
  have z: "(0::nat) \<le> ?b" by simp
  from swapping_loop[OF bc r1 r2 sb(1) r3 r4 z lu refl]
  obtain m where m0: "0 \<le> m \<and> m \<le> ?b \<and>
    for_each_break [0..<?b] (swap_body am (solid x0) (void x0) ss sv) u =
       Inr \<lparr>ux = fold (\<lambda>k x. x[es_at (solid x0) ss (k + ?c) := False,
                               ev_at (void x0) sv k := True]) [0..<m] (ux u),
            ucount = ?c,
            ulog = ulog u @ concat (map (\<lambda>k. [(es_at (solid x0) ss (k + ?c), True),
                                                (ev_at (void x0) sv k, False)]) [0..<m])\<rparr> \<and>
    (\<forall>k. 0 \<le> k \<and> k < m \<longrightarrow>
       \<not> flt (am ! es_at (solid x0) ss (k + ?c)) (am ! ev_at (void x0) sv k)) \<and>
    (m < ?b \<longrightarrow> flt (am ! es_at (solid x0) ss (m + ?c)) (am ! ev_at (void x0) sv m))"
    by (rule exE)
  then have m: "m \<le> ?b"
    "for_each_break [0..<?b] (swap_body am (solid x0) (void x0) ss sv) u =
       Inr (swapped_upd (solid x0) (void x0) ss sv u m)"
    "\<forall>k. 0 \<le> k \<and> k < m \<longrightarrow>
       \<not> flt (am ! es_at (solid x0) ss (k + ?c)) (am ! ev_at (void x0) sv k)"
    "m < ?b \<longrightarrow> flt (am ! es_at (solid x0) ss (m + ?c)) (am ! ev_at (void x0) sv m)"
    unfolding swapped_upd_def by simp_all
  have cv: "constant_volume N am (solid x0) (void x0) ss sv u =
     for_each_break [0..<?b] (swap_body am (solid x0) (void x0) ss sv) u"
    by (simp only: constant_volume_def swap_limit_def)
  show ?thesis
  proof (intro exI[of _ m] conjI)
    show "m \<le> ?b" by (rule m(1))
    show "constant_volume N am (solid x0) (void x0) ss sv u =
          Inr (swapped_upd (solid x0) (void x0) ss sv u m)" using cv m(2) by simp
    show "\<forall>k<m. \<not> flt (am ! es_at (solid x0) ss (k + ?c)) (am ! ev_at (void x0) sv k)"
      using m(3) by simp
    show "m < ?b \<longrightarrow> flt (am ! es_at (solid x0) ss (m + ?c)) (am ! ev_at (void x0) sv m)"
      by (rule m(4))
  qed
qed

lemma volume_card: "volume xs = card {e. e < length xs \<and> xs ! e}"
proof -
  have "card (set (solid xs)) = length (solid xs)"
    by (rule distinct_card) (rule solid_props(1))
  then show ?thesis by (simp add: solid_props(2,3))
qed

lemma removed_length: "length (ux (removed_upd sol ss x0 c)) = length x0"
  by (simp add: removed_upd_def fold_update_length)

lemma removed_nth:
  assumes "e < length x0"
  shows "ux (removed_upd sol ss x0 c) ! e = (x0 ! e \<and> e \<notin> es_at sol ss ` {..<c})"
proof -
  have "set [0..<c] = {..<c}" by (simp add: atLeast0LessThan)
  then show ?thesis
    using fold_update_nth[OF assms, of "es_at sol ss" False "[0..<c]"]
    by (simp add: removed_upd_def)
qed

lemma removed_log:
  "ulog (removed_upd sol ss x0 c) = map (\<lambda>k. (es_at sol ss k, True)) [0..<c]"
  "ucount (removed_upd sol ss x0 c) = c"
  by (simp_all add: removed_upd_def)

lemma es_image_card:
  assumes "sort ss = [0..<volume x0]" and "a \<le> b" and "b \<le> volume x0"
  shows "card (es_at (solid x0) ss ` {a..<b}) = b - a"
    and "es_at (solid x0) ss ` {a..<b} \<subseteq> {e. e < length x0 \<and> x0 ! e}"
proof -
  have sub: "{a..<b} \<subseteq> {..<volume x0}" using assms(3) by auto
  have "inj_on (es_at (solid x0) ss) {a..<b}"
    by (rule inj_on_subset[OF es_at_props(2)[OF assms(1)] sub])
  then show "card (es_at (solid x0) ss ` {a..<b}) = b - a"
    by (simp add: card_image)
  show "es_at (solid x0) ss ` {a..<b} \<subseteq> {e. e < length x0 \<and> x0 ! e}"
    using es_at_props(1)[OF assms(1)] sub by auto
qed

lemma removed_volume:
  assumes "sort ss = [0..<volume x0]" and "c \<le> volume x0"
  shows "volume (ux (removed_upd (solid x0) ss x0 c)) = volume x0 - c"
proof -
  let ?u = "removed_upd (solid x0) ss x0 c"
  let ?E = "es_at (solid x0) ss ` {0..<c}"
  let ?S = "{e. e < length x0 \<and> x0 ! e}"
  have z: "(0::nat) \<le> c" by simp
  note ic = es_image_card[OF assms(1) z assms(2)]
  have "{e. e < length (ux ?u) \<and> ux ?u ! e} = ?S - ?E"
    by (auto simp: removed_length removed_nth atLeast0LessThan)
  then have "volume (ux ?u) = card (?S - ?E)" by (simp add: volume_card)
  also have "\<dots> = card ?S - card ?E"
    by (rule card_Diff_subset) (use ic(2) in \<open>auto intro: finite_subset[of _ "{..<length x0}"]\<close>)
  finally show ?thesis using ic(1) by (simp add: volume_card)
qed

lemma swapped_length: "length (ux (swapped_upd sol vd ss sv u m)) = length (ux u)"
  by (simp add: swapped_upd_def fold_update2_length)

lemma swapped_count: "ucount (swapped_upd sol vd ss sv u m) = ucount u"
  by (simp add: swapped_upd_def)

lemma swapped_nth:
  assumes "e < length (ux u)"
    and "\<forall>k<m. \<forall>k'<m. es_at sol ss (k + ucount u) \<noteq> ev_at vd sv k'"
  shows "ux (swapped_upd sol vd ss sv u m) ! e =
         (if e \<in> ev_at vd sv ` {..<m} then True
          else if e \<in> (\<lambda>k. es_at sol ss (k + ucount u)) ` {..<m} then False
          else ux u ! e)"
proof -
  have s: "set [0..<m] = {..<m}" by (simp add: atLeast0LessThan)
  have d: "\<forall>k\<in>set [0..<m]. \<forall>k'\<in>set [0..<m].
             es_at sol ss (k + ucount u) \<noteq> ev_at vd sv k'"
    using assms(2) by simp
  show ?thesis
    using fold_update2_nth[OF assms(1) d, of False True]
    unfolding s by (simp add: swapped_upd_def)
qed

lemma shift_image: "(\<lambda>k. f (k + c)) ` {..<m} = f ` {c..<c + (m::nat)}"
proof
  show "(\<lambda>k. f (k + c)) ` {..<m} \<subseteq> f ` {c..<c + m}" by auto
  show "f ` {c..<c + m} \<subseteq> (\<lambda>k. f (k + c)) ` {..<m}"
  proof
    fix y assume "y \<in> f ` {c..<c + m}"
    then obtain j where j: "c \<le> j" "j < c + m" "y = f j" by auto
    then have "j - c < m" "y = f ((j - c) + c)" by simp_all
    then show "y \<in> (\<lambda>k. f (k + c)) ` {..<m}" by blast
  qed
qed

lemma ev_image_card:
  assumes "sort sv = [0..<length x0 - volume x0]" and "m \<le> length x0 - volume x0"
  shows "card (ev_at (void x0) sv ` {..<m}) = m"
    and "ev_at (void x0) sv ` {..<m} \<subseteq> {e. e < length x0 \<and> \<not> x0 ! e}"
proof -
  have sub: "{..<m} \<subseteq> {..<length x0 - volume x0}" using assms(2) by auto
  have "inj_on (ev_at (void x0) sv) {..<m}"
    by (rule inj_on_subset[OF ev_at_props(2)[OF assms(1)] sub])
  then show "card (ev_at (void x0) sv ` {..<m}) = m" by (simp add: card_image)
  show "ev_at (void x0) sv ` {..<m} \<subseteq> {e. e < length x0 \<and> \<not> x0 ! e}"
    using ev_at_props(1)[OF assms(1)] sub by auto
qed

text \<open>The topology after both phases, entry by entry.\<close>

lemma updated_nth:
  assumes "sort ss = [0..<volume x0]" and "sort sv = [0..<length x0 - volume x0]"
    and "c + m \<le> volume x0" and "m \<le> length x0 - volume x0" and "e < length x0"
  shows "ux (swapped_upd (solid x0) (void x0) ss sv (removed_upd (solid x0) ss x0 c) m) ! e =
         (e \<in> ev_at (void x0) sv ` {..<m} \<or>
          (x0 ! e \<and> e \<notin> es_at (solid x0) ss ` {..<c + m}))"
proof -
  let ?es = "es_at (solid x0) ss" and ?ev = "ev_at (void x0) sv"
  let ?u1 = "removed_upd (solid x0) ss x0 c"
  have z: "(0::nat) \<le> c + m" by simp
  note es = es_image_card[OF assms(1) z assms(3)]
  note ev = ev_image_card[OF assms(2) assms(4)]
  have disj: "\<forall>k<m. \<forall>k'<m. ?es (k + ucount ?u1) \<noteq> ?ev k'"
  proof (intro allI impI)
    fix k k' assume k: "k < m" and k': "k' < m"
    have "?es (k + c) \<in> ?es ` {0..<c + m}" using k by auto
    then have a: "x0 ! ?es (k + c)" using es(2) by auto
    have "?ev k' \<in> ?ev ` {..<m}" using k' by auto
    then have b: "\<not> x0 ! ?ev k'" using ev(2) by auto
    show "?es (k + ucount ?u1) \<noteq> ?ev k'" using a b by (auto simp: removed_log(2))
  qed
  have e1: "e < length (ux ?u1)" using assms(5) by (simp add: removed_length)
  have split: "?es ` {..<c + m} = ?es ` {..<c} \<union> ?es ` {c..<c + m}"
  proof -
    have "{..<c + m} = {..<c} \<union> {c..<c + m}" by auto
    then show ?thesis by (simp only: image_Un)
  qed
  have evs: "e \<in> ?ev ` {..<m} \<Longrightarrow> \<not> x0 ! e" using ev(2) by auto
  show ?thesis
    using swapped_nth[OF e1 disj] removed_nth[OF assms(5), of "solid x0" ss c] evs
    unfolding removed_log(2) shift_image split by auto
qed

lemma updated_volume:
  assumes "sort ss = [0..<volume x0]" and "sort sv = [0..<length x0 - volume x0]"
    and "c + m \<le> volume x0" and "m \<le> length x0 - volume x0"
  shows "volume (ux (swapped_upd (solid x0) (void x0) ss sv (removed_upd (solid x0) ss x0 c) m))
         = volume x0 - c"
proof -
  let ?es = "es_at (solid x0) ss" and ?ev = "ev_at (void x0) sv"
  let ?u2 = "swapped_upd (solid x0) (void x0) ss sv (removed_upd (solid x0) ss x0 c) m"
  let ?S = "{e. e < length x0 \<and> x0 ! e}"
  let ?ES = "?es ` {0..<c + m}" and ?EV = "?ev ` {..<m}"
  have z: "(0::nat) \<le> c + m" by simp
  note es = es_image_card[OF assms(1) z assms(3)]
  note ev = ev_image_card[OF assms(2) assms(4)]
  have fS: "finite ?S" by simp
  have len: "length (ux ?u2) = length x0" by (simp add: swapped_length removed_length)
  have "{e. e < length (ux ?u2) \<and> ux ?u2 ! e} = (?S - ?ES) \<union> ?EV"
    unfolding len using updated_nth[OF assms] ev(2)
    by (auto simp: atLeast0LessThan)
  then have "volume (ux ?u2) = card ((?S - ?ES) \<union> ?EV)" by (simp add: volume_card)
  also have "\<dots> = card (?S - ?ES) + card ?EV"
    by (rule card_Un_disjoint) (use ev(2) fS in \<open>auto intro: finite_subset[of _ "{..<length x0}"]\<close>)
  also have "card (?S - ?ES) = card ?S - card ?ES"
    by (rule card_Diff_subset) (use es(2) in \<open>auto intro: finite_subset[of _ "{..<length x0}"]\<close>)
  finally show ?thesis using es(1) ev(1) assms(3) by (simp add: volume_card)
qed

lemma log_set:
  "set (map f [0..<c] @ concat (map (\<lambda>k. [f (k + c), g k]) [0..<m])) =
     f ` {..<c + m} \<union> g ` {..<m}"
proof (induction m)
  case 0
  show ?case by (simp add: atLeast0LessThan)
next
  case (Suc m)
  have "set (map f [0..<c] @ concat (map (\<lambda>k. [f (k + c), g k]) [0..<Suc m])) =
        set (map f [0..<c] @ concat (map (\<lambda>k. [f (k + c), g k]) [0..<m])) \<union> {f (m + c), g m}"
    by simp
  also have "\<dots> = (f ` {..<c + m} \<union> g ` {..<m}) \<union> {f (m + c), g m}"
    by (simp only: Suc.IH)
  also have "\<dots> = f ` {..<c + Suc m} \<union> g ` {..<Suc m}"
    by (simp add: lessThan_Suc add.commute insert_commute Un_commute Un_left_commute)
  finally show ?case .
qed

lemma log_distinct:
  assumes "inj_on f {..<c + m}" and "inj_on g {..<m}" and "\<forall>j<c + m. \<forall>k<m. f j \<noteq> g k"
  shows "distinct (map f [0..<c] @ concat (map (\<lambda>k. [f (k + c), g k]) [0..<m]))"
  using assms
proof (induction m)
  case 0
  then have "inj_on f {0..<c}" by (simp add: atLeast0LessThan)
  then show ?case by (simp add: distinct_map)
next
  case (Suc m)
  have i1: "inj_on f {..<c + m}"
    by (rule inj_on_subset[OF Suc.prems(1)]) auto
  have i2: "inj_on g {..<m}"
    by (rule inj_on_subset[OF Suc.prems(2)]) auto
  have i3: "\<forall>j<c + m. \<forall>k<m. f j \<noteq> g k" using Suc.prems(3) by simp
  note ih = Suc.IH[OF i1 i2 i3]
  have a: "f (m + c) \<notin> f ` {..<c + m}"
  proof
    assume "f (m + c) \<in> f ` {..<c + m}"
    then obtain j where j: "j < c + m" "f (m + c) = f j" by auto
    have "m + c = j"
      by (rule inj_onD[OF Suc.prems(1) j(2)]) (use j(1) in simp_all)
    then show False using j(1) by simp
  qed
  have b: "f (m + c) \<notin> g ` {..<m}"
  proof
    assume "f (m + c) \<in> g ` {..<m}"
    then obtain k where k: "k < m" "f (m + c) = g k" by auto
    then show False using Suc.prems(3) by (auto simp: add.commute)
  qed
  have c': "g m \<notin> g ` {..<m}"
  proof
    assume "g m \<in> g ` {..<m}"
    then obtain j where j: "j < m" "g m = g j" by auto
    have "m = j"
      by (rule inj_onD[OF Suc.prems(2) j(2)]) (use j(1) in simp_all)
    then show False using j(1) by simp
  qed
  have d: "g m \<notin> f ` {..<c + m}"
  proof
    assume "g m \<in> f ` {..<c + m}"
    then obtain j where j: "j < c + m" "g m = f j" by auto
    then show False using Suc.prems(3) by (metis less_Suc_eq add_Suc_right lessI)
  qed
  have e: "f (m + c) \<noteq> g m"
    using Suc.prems(3) by (metis add.commute add_Suc_right lessI)
  have "distinct ((map f [0..<c] @ concat (map (\<lambda>k. [f (k + c), g k]) [0..<m])) @
                  [f (m + c), g m])"
    using ih a b c' d e unfolding distinct_append log_set by simp
  then show ?case by simp
qed

lemma log_length:
  "length (concat (map (\<lambda>k. [a k, b k]) [0..<m])) = 2 * m"
  by (induction m) simp_all

lemma swapped_log:
  "ulog (swapped_upd sol vd ss sv u m) =
     ulog u @ concat (map (\<lambda>(es, ev). [(es, True), (ev, False)])
                        (swap_pairs sol vd ss sv (ucount u) m))"
  by (simp add: swapped_upd_def swap_pairs_def comp_def)

lemma updated_log_fst:
  "map fst (ulog (swapped_upd sol vd ss sv (removed_upd sol ss x0 c) m)) =
     map (es_at sol ss) [0..<c] @
     concat (map (\<lambda>k. [es_at sol ss (k + c), ev_at vd sv k]) [0..<m])"
  by (simp add: swapped_upd_def removed_upd_def map_concat comp_def)

lemma updated_log_length:
  "length (ulog (swapped_upd sol vd ss sv (removed_upd sol ss x0 c) m)) = c + 2 * m"
  by (simp add: swapped_upd_def removed_upd_def log_length)

text \<open>What the two phases return, for well-formed inputs.\<close>

lemma update_topology_spec:
  assumes "2 \<le> N" and "length x0 = N" and "Vt N \<le> volume x0" and "length am = N"
    and "sort ss = [0..<volume x0]" and "sort sv = [0..<N - volume x0]"
  obtains c m where "c = min (volume x0 - Vt N) (dVmax N)"
    and "m \<le> swap_limit N (length sv) c" and "c + m \<le> volume x0" and "m \<le> N - volume x0"
    and "changing_volume N (solid x0) ss x0 = Inr (removed_upd (solid x0) ss x0 c)"
    and "constant_volume N am (solid x0) (void x0) ss sv (removed_upd (solid x0) ss x0 c) =
           Inr (swapped_upd (solid x0) (void x0) ss sv (removed_upd (solid x0) ss x0 c) m)"
    and "\<forall>k<m. \<not> flt (am ! es_at (solid x0) ss (k + c)) (am ! ev_at (void x0) sv k)"
    and "m < swap_limit N (length sv) c \<longrightarrow>
           flt (am ! es_at (solid x0) ss (m + c)) (am ! ev_at (void x0) sv m)"
proof -
  let ?c = "min (volume x0 - Vt N) (dVmax N)"
  let ?u1 = "removed_upd (solid x0) ss x0 ?c"
  have cv: "changing_volume N (solid x0) ss x0 = Inr ?u1"
    by (rule changing_volume_char[OF assms(3,5)])
  have uc: "ucount ?u1 = ?c" by (simp add: removed_log(2))
  have ul: "length (ux ?u1) = N" by (simp add: removed_length assms(2))
  from constant_volume_char[OF assms uc ul]
  obtain m where m: "m \<le> swap_limit N (length sv) (ucount ?u1)"
    "constant_volume N am (solid x0) (void x0) ss sv ?u1 =
       Inr (swapped_upd (solid x0) (void x0) ss sv ?u1 m)"
    "\<forall>k<m. \<not> flt (am ! es_at (solid x0) ss (k + ucount ?u1)) (am ! ev_at (void x0) sv k)"
    "m < swap_limit N (length sv) (ucount ?u1) \<longrightarrow>
       flt (am ! es_at (solid x0) ss (m + ucount ?u1)) (am ! ev_at (void x0) sv m)"
    by blast
  have cd: "?c \<le> dVmax N" by simp
  note sb = swap_bound[OF swap_limit_def cd]
  have "real (swap_limit N (length sv) ?c) \<le> dXmax N / 2"
    using sb(2)[of "length sv"] by simp
  also have "\<dots> \<le> real (Vt N)" by (rule half_dXmax_le_Vt[OF assms(1)])
  finally have bv: "swap_limit N (length sv) ?c \<le> Vt N" by simp
  have mv: "m \<le> Vt N" using m(1) bv unfolding uc by simp
  have cm: "?c + m \<le> volume x0" using mv assms(3) by simp
  have lsv: "length sv = N - volume x0" by (rule sort_upt_props(1)[OF assms(6)])
  have ml: "m \<le> N - volume x0" using m(1) sb(1)[of "length sv"] unfolding uc lsv by simp
  show ?thesis
    by (rule that[of ?c m]) (use m cv cm ml in \<open>simp_all only: uc\<close>)
qed

lemma np_assign_Inr:
  assumes "np_assign xs ids v = Inr ys"
  shows "length ys = length xs" and "\<forall>i\<in>set ids. i < length xs"
    and "\<forall>e<length xs. ys ! e = (if e \<in> set ids then v else xs ! e)"
proof -
  have r: "\<forall>i\<in>set ids. i < length xs" and y: "ys = fold (\<lambda>i zs. zs[i := v]) ids xs"
    using assms by (auto simp: np_assign_def split: if_splits)
  show "\<forall>i\<in>set ids. i < length xs" by (rule r)
  show "length ys = length xs" unfolding y by (rule fold_update_length[of "\<lambda>k. k"])
  show "\<forall>e<length xs. ys ! e = (if e \<in> set ids then v else xs ! e)"
    unfolding y using fold_update_nth[of _ xs "\<lambda>k. k" v ids] by simp
qed

lemma np_assign_ok:
  "\<forall>i\<in>set ids. i < length xs \<Longrightarrow> \<exists>ys. np_assign xs ids v = Inr ys"
  by (simp add: np_assign_def)

lemma py_max_ok: "xs \<noteq> [] \<Longrightarrow> \<exists>m. py_max xs = Inr m"
  by (cases xs) (simp_all add: py_max_def)

lemma momentum_step_Inr:
  assumes "momentum_step lde am af = Inr am'"
  shows "length am' = length am" and "\<forall>e\<in>set lde. e < length am \<and> am' ! e = NInf"
proof -
  from assms obtain am0 mf mm where
    a0: "np_assign am lde (Fin 0) = Inr am0" and
    len: "length af = length am0" and
    fin: "np_assign (map (\<lambda>a. fdiv a mm)
            (map (\<lambda>(a, f). fadd (fmul (Fin momentum) a)
                                (fmul (Fin (1 - momentum)) (fdiv f mf))) (zip am0 af)))
            lde NInf = Inr am'"
    unfolding momentum_step_def by (auto simp: ebind_Inr Let_def split: if_splits)
  note n0 = np_assign_Inr[OF a0]
  note n1 = np_assign_Inr[OF fin]
  have l: "length am' = length am" using n1(1) n0(1) len by simp
  show "length am' = length am" by (rule l)
  show "\<forall>e\<in>set lde. e < length am \<and> am' ! e = NInf"
    using n1(2,3) n0(1) len by simp
qed

lemma momentum_step_ok:
  assumes "\<forall>e\<in>set lde. e < length am" and "length af = length am" and "am \<noteq> []"
  shows "\<exists>am'. momentum_step lde am af = Inr am'"
proof -
  from np_assign_ok[OF assms(1)] obtain am0 where a0: "np_assign am lde (Fin 0) = Inr am0"
    by blast
  note n0 = np_assign_Inr[OF a0]
  have "map fabs af \<noteq> []" using assms(2,3) by auto
  from py_max_ok[OF this] obtain mf where mf: "py_max (map fabs af) = Inr mf" by blast
  let ?am1 = "map (\<lambda>(a, f). fadd (fmul (Fin momentum) a)
                              (fmul (Fin (1 - momentum)) (fdiv f mf))) (zip am0 af)"
  have l1: "length ?am1 = length am" using n0(1) assms(2) by simp
  then have "map fabs ?am1 \<noteq> []" using assms(3) by auto
  from py_max_ok[OF this] obtain mm where mm: "py_max (map fabs ?am1) = Inr mm" by blast
  have "\<forall>e\<in>set lde. e < length (map (\<lambda>a. fdiv a mm) ?am1)"
    using assms(1) l1 by simp
  from np_assign_ok[OF this] obtain am' where
    "np_assign (map (\<lambda>a. fdiv a mm) ?am1) lde NInf = Inr am'" by blast
  then show ?thesis
    unfolding momentum_step_def using a0 mf mm n0(1) assms(2) by (simp add: Let_def)
qed

lemma argsort_ok_sorts:
  assumes "argsort_ok lde s nu" and "momentum_step lde (alpha_m s) (n_alpha_f nu) = Inr am"
  shows "sort (n_sorted_solid nu) = [0..<volume (x s)]"
    and "sort (n_sorted_void nu) = [0..<length (x s) - volume (x s)]"
    and "sorted_wrt (\<lambda>i j. np_le (map (\<lambda>e. am ! e) (solid (x s)) ! i)
                                   (map (\<lambda>e. am ! e) (solid (x s)) ! j)) (n_sorted_solid nu)"
  using assms by (simp_all add: argsort_ok_def is_argsort_def solid_props(3) void_props(3))

text \<open>One pass of the loop, decomposed, for well-formed numerical inputs.\<close>

lemma pass_spec:
  assumes "2 \<le> N" and "\<forall>e\<in>set lde. e < N"
    and "length (x s) = N" and "length (alpha_m s) = N" and "Vt N \<le> volume (x s)"
    and "numerics_wf N lde s nu"
  obtains am c m where
    "momentum_step lde (alpha_m s) (n_alpha_f nu) = Inr am" and "length am = N"
    and "sort (n_sorted_solid nu) = [0..<volume (x s)]"
    and "sort (n_sorted_void nu) = [0..<N - volume (x s)]"
    and "c = min (volume (x s) - Vt N) (dVmax N)"
    and "m \<le> swap_limit N (length (n_sorted_void nu)) c"
    and "c + m \<le> volume (x s)" and "m \<le> N - volume (x s)"
    and "changing_volume N (solid (x s)) (n_sorted_solid nu) (x s) =
           Inr (removed_upd (solid (x s)) (n_sorted_solid nu) (x s) c)"
    and "constant_volume N am (solid (x s)) (void (x s)) (n_sorted_solid nu) (n_sorted_void nu)
           (removed_upd (solid (x s)) (n_sorted_solid nu) (x s) c) =
           Inr (swapped_upd (solid (x s)) (void (x s)) (n_sorted_solid nu) (n_sorted_void nu)
                  (removed_upd (solid (x s)) (n_sorted_solid nu) (x s) c) m)"
    and "\<forall>k<m. \<not> flt (am ! es_at (solid (x s)) (n_sorted_solid nu) (k + c))
                      (am ! ev_at (void (x s)) (n_sorted_void nu) k)"
    and "m < swap_limit N (length (n_sorted_void nu)) c \<longrightarrow>
           flt (am ! es_at (solid (x s)) (n_sorted_solid nu) (m + c))
               (am ! ev_at (void (x s)) (n_sorted_void nu) m)"
proof -
  have wf: "length (n_alpha_f nu) = N" "argsort_ok lde s nu"
    using assms(6) by (simp_all add: numerics_wf_def)
  have ne: "alpha_m s \<noteq> []" using assms(1,4) by auto
  have r: "\<forall>e\<in>set lde. e < length (alpha_m s)" using assms(2,4) by simp
  have l: "length (n_alpha_f nu) = length (alpha_m s)" using wf(1) assms(4) by simp
  from momentum_step_ok[OF r l ne] obtain am where
    am: "momentum_step lde (alpha_m s) (n_alpha_f nu) = Inr am" by blast
  have la: "length am = N" using momentum_step_Inr(1)[OF am] assms(4) by simp
  note so = argsort_ok_sorts[OF wf(2) am]
  have sv: "sort (n_sorted_void nu) = [0..<N - volume (x s)]" using so(2) assms(3) by simp
  show ?thesis
    by (rule update_topology_spec[OF assms(1,3,5) la so(1) sv])
       (rule that[OF am la so(1) sv]; assumption)
qed

lemma update_topology_eq:
  assumes "changing_volume N (solid x0) ss x0 = Inr u1"
    and "constant_volume N am (solid x0) (void x0) ss sv u1 = Inr u2"
  shows "update_topology N am ss sv x0 = Inr u2"
  using assms by (simp add: update_topology_def)

lemma iteration_Inr2:
  assumes "iteration N lde nu s = Inr s'"
  shows "\<exists>am u. momentum_step lde (alpha_m s) (n_alpha_f nu) = Inr am \<and>
           update_topology N am (n_sorted_solid nu) (n_sorted_void nu) (x s) = Inr u \<and>
           x s' = ux u \<and> alpha_m s' = am"
  using assms unfolding iteration_def
  by (auto simp: ebind_Inr post_solver_def Let_def)

lemma reachable_wf_inv:
  assumes "2 \<le> N" and "\<forall>e\<in>set lde. e < N" and "\<And>s nu. P s nu \<Longrightarrow> numerics_wf N lde s nu"
    and "reachable N lde P s"
  shows "length (x s) = N \<and> length (alpha_m s) = N \<and> Vt N \<le> volume (x s)"
  using assms(4)
proof (induction rule: reachable_induct)
  case init
  show ?case by (simp add: init_state_def volume_def Vt_div)
next
  case (step s nu s')
  note inv = step.IH
  have wf: "numerics_wf N lde s nu" by (rule assms(3)[OF step.hyps(3)])
  from inv have i1: "length (x s) = N" and i2: "length (alpha_m s) = N"
    and i3: "Vt N \<le> volume (x s)" by simp_all
  show ?case
  proof (rule pass_spec[OF assms(1,2) i1 i2 i3 wf])
    fix am c m
    assume p1: "momentum_step lde (alpha_m s) (n_alpha_f nu) = Inr am"
      and p2: "length am = N"
      and p3: "sort (n_sorted_solid nu) = [0..<volume (x s)]"
      and p4: "sort (n_sorted_void nu) = [0..<N - volume (x s)]"
      and p5: "c = min (volume (x s) - Vt N) (dVmax N)"
      and p6: "c + m \<le> volume (x s)" and p7: "m \<le> N - volume (x s)"
      and p8: "changing_volume N (solid (x s)) (n_sorted_solid nu) (x s) =
           Inr (removed_upd (solid (x s)) (n_sorted_solid nu) (x s) c)"
      and p9: "constant_volume N am (solid (x s)) (void (x s)) (n_sorted_solid nu)
           (n_sorted_void nu) (removed_upd (solid (x s)) (n_sorted_solid nu) (x s) c) =
           Inr (swapped_upd (solid (x s)) (void (x s)) (n_sorted_solid nu) (n_sorted_void nu)
                  (removed_upd (solid (x s)) (n_sorted_solid nu) (x s) c) m)"
    let ?u2 = "swapped_upd (solid (x s)) (void (x s)) (n_sorted_solid nu) (n_sorted_void nu)
                  (removed_upd (solid (x s)) (n_sorted_solid nu) (x s) c) m"
    from iteration_Inr2[OF step.hyps(4)] obtain am' and u :: upd where
      it: "momentum_step lde (alpha_m s) (n_alpha_f nu) = Inr am'"
        "update_topology N am' (n_sorted_solid nu) (n_sorted_void nu) (x s) = Inr u"
        "x s' = ux u" "alpha_m s' = am'" by blast
    have ae: "am' = am" using it(1) p1 by simp
    have ue: "u = ?u2" using it(2) update_topology_eq[OF p8 p9] unfolding ae by simp
    have sv: "sort (n_sorted_void nu) = [0..<length (x s) - volume (x s)]"
      using p4 i1 by simp
    have m': "m \<le> length (x s) - volume (x s)" using p7 i1 by simp
    have v: "volume (ux ?u2) = volume (x s) - c"
      by (rule updated_volume[OF p3 sv p6 m'])
    have l: "length (ux ?u2) = N" by (simp add: swapped_length removed_length i1)
    have "c \<le> volume (x s) - Vt N" using p5 by simp
    then have "Vt N \<le> volume (x s) - c" using i3 by linarith
    then show ?thesis unfolding it(3,4) ae ue using v l p2 by simp
  qed
qed

lemma swap_pairs_props:
  assumes "sort ss = [0..<volume x0]" and "sort sv = [0..<length x0 - volume x0]"
    and "c + m \<le> volume x0" and "m \<le> length x0 - volume x0"
  shows "\<forall>(es, ev)\<in>set (swap_pairs (solid x0) (void x0) ss sv c m). x0 ! es \<and> \<not> x0 ! ev"
    and "length (swap_pairs (solid x0) (void x0) ss sv c m) = m"
proof -
  show "length (swap_pairs (solid x0) (void x0) ss sv c m) = m"
    by (simp add: swap_pairs_def)
  have "x0 ! es_at (solid x0) ss (k + c) \<and> \<not> x0 ! ev_at (void x0) sv k" if "k < m" for k
  proof -
    have "k + c < volume x0" using that assms(3) by simp
    then have a: "x0 ! es_at (solid x0) ss (k + c)" using es_at_props(1)[OF assms(1)] by simp
    have "k < length x0 - volume x0" using that assms(4) by simp
    then have "\<not> x0 ! ev_at (void x0) sv k" using ev_at_props(1)[OF assms(2)] by simp
    then show ?thesis using a by simp
  qed
  then show "\<forall>(es, ev)\<in>set (swap_pairs (solid x0) (void x0) ss sv c m). x0 ! es \<and> \<not> x0 ! ev"
    by (auto simp: swap_pairs_def)
qed

lemma es_ev_distinct:
  assumes "sort ss = [0..<volume x0]" and "sort sv = [0..<length x0 - volume x0]"
    and "n \<le> volume x0" and "m \<le> length x0 - volume x0"
  shows "inj_on (es_at (solid x0) ss) {..<n}" and "inj_on (ev_at (void x0) sv) {..<m}"
    and "\<forall>j<n. \<forall>k<m. es_at (solid x0) ss j \<noteq> ev_at (void x0) sv k"
proof -
  show "inj_on (es_at (solid x0) ss) {..<n}"
    by (rule inj_on_subset[OF es_at_props(2)[OF assms(1)]]) (use assms(3) in auto)
  show "inj_on (ev_at (void x0) sv) {..<m}"
    by (rule inj_on_subset[OF ev_at_props(2)[OF assms(2)]]) (use assms(4) in auto)
  show "\<forall>j<n. \<forall>k<m. es_at (solid x0) ss j \<noteq> ev_at (void x0) sv k"
  proof (intro allI impI)
    fix j k assume j: "j < n" and k: "k < m"
    have a: "x0 ! es_at (solid x0) ss j" using es_at_props(1)[OF assms(1)] j assms(3) by simp
    have b: "\<not> x0 ! ev_at (void x0) sv k" using ev_at_props(1)[OF assms(2)] k assms(4) by simp
    show "es_at (solid x0) ss j \<noteq> ev_at (void x0) sv k" using a b by auto
  qed
qed

lemma updated_log_distinct:
  assumes "sort ss = [0..<volume x0]" and "sort sv = [0..<length x0 - volume x0]"
    and "c + m \<le> volume x0" and "m \<le> length x0 - volume x0"
  shows "distinct (map fst (ulog (swapped_upd (solid x0) (void x0) ss sv
                                   (removed_upd (solid x0) ss x0 c) m)))"
  unfolding updated_log_fst
  by (rule log_distinct[OF es_ev_distinct[OF assms]])

lemma updated_changed:
  assumes "sort ss = [0..<volume x0]" and "sort sv = [0..<length x0 - volume x0]"
    and "c + m \<le> volume x0" and "m \<le> length x0 - volume x0"
  shows "{e. e < length x0 \<and>
             ux (swapped_upd (solid x0) (void x0) ss sv (removed_upd (solid x0) ss x0 c) m) ! e
             \<noteq> x0 ! e} =
         fst ` set (ulog (swapped_upd (solid x0) (void x0) ss sv
                            (removed_upd (solid x0) ss x0 c) m))"
proof -
  let ?es = "es_at (solid x0) ss" and ?ev = "ev_at (void x0) sv"
  let ?u2 = "swapped_upd (solid x0) (void x0) ss sv (removed_upd (solid x0) ss x0 c) m"
  have z: "(0::nat) \<le> c + m" by simp
  note es = es_image_card(2)[OF assms(1) z assms(3)]
  note ev = ev_image_card(2)[OF assms(2) assms(4)]
  have "fst ` set (ulog ?u2) = set (map fst (ulog ?u2))" by simp
  also have "\<dots> = ?es ` {..<c + m} \<union> ?ev ` {..<m}"
    unfolding updated_log_fst by (rule log_set)
  finally have r: "fst ` set (ulog ?u2) = ?es ` {..<c + m} \<union> ?ev ` {..<m}" .
  have l: "{e. e < length x0 \<and> ux ?u2 ! e \<noteq> x0 ! e} = ?es ` {..<c + m} \<union> ?ev ` {..<m}"
    using updated_nth[OF assms] es ev by (auto simp: atLeast0LessThan)
  show ?thesis unfolding r l ..
qed

lemma dVmax_floor: "int (dVmax N) = max 1 \<lfloor>VV * real N\<rfloor>"
proof -
  have nn: "0 \<le> VV * real N" by (simp add: VV_def)
  then have f: "0 \<le> \<lfloor>VV * real N\<rfloor>" by simp
  have "int (dVmax N) = max (int 1) (int (nat \<lfloor>VV * real N\<rfloor>))"
    unfolding dVmax_def using nn by (simp only: py_int_def if_True of_nat_max)
  then show ?thesis using f by simp
qed

text \<open>
  Claim C4. In every pass of the loop, for well-formed numerical inputs, both phases
  return. The reduction phase makes exactly \<open>min (vol - Vt) dVmax\<close> removals, with
  \<open>dVmax = max 1 \<lfloor>VV*N\<rfloor>\<close>, and leaves a volume not below \<open>Vt\<close>. The swap phase appends
  whole (solid, void) pairs; all elements flipped in the pass are distinct, they are
  exactly the positions where the topology has changed, a removed element was solid and
  an added one void; twice the number of pairs is within \<open>dXmax - count\<close> with
  \<open>dXmax = max 2 (TV*N)\<close>, so the removals are within \<open>dVmax\<close> and all flips within
  \<open>dXmax\<close>.
\<close>

theorem topology_update_caps:
  assumes "2 \<le> N" and "\<forall>e\<in>set lde. e < N"
    and "reachable N lde (numerics_wf N lde) s" and "numerics_wf N lde s nu"
  shows "\<exists>am u1 u2 pairs.
     momentum_step lde (alpha_m s) (n_alpha_f nu) = Inr am \<and>
     changing_volume N (solid (x s)) (n_sorted_solid nu) (x s) = Inr u1 \<and>
     constant_volume N am (solid (x s)) (void (x s)) (n_sorted_solid nu) (n_sorted_void nu) u1
       = Inr u2 \<and>
     update_topology N am (n_sorted_solid nu) (n_sorted_void nu) (x s) = Inr u2 \<and>
     int (dVmax N) = max 1 \<lfloor>VV * real N\<rfloor> \<and> dXmax N = max 2 (TV * real N) \<and>
     ucount u1 = min (volume (x s) - Vt N) (dVmax N) \<and>
     length (ulog u1) = ucount u1 \<and>
     volume (ux u1) = volume (x s) - ucount u1 \<and>
     Vt N \<le> volume (ux u1) \<and>
     ulog u2 = ulog u1 @ concat (map (\<lambda>(es, ev). [(es, True), (ev, False)]) pairs) \<and>
     (\<forall>(es, ev)\<in>set pairs. x s ! es \<and> \<not> x s ! ev) \<and>
     distinct (map fst (ulog u2)) \<and>
     {e. e < N \<and> ux u2 ! e \<noteq> x s ! e} = fst ` set (ulog u2) \<and>
     volume (ux u2) = volume (ux u1) \<and>
     2 * real (length pairs) \<le> dXmax N - real (ucount u1) \<and>
     ucount u1 \<le> dVmax N \<and>
     real (length (ulog u2)) \<le> dXmax N"
proof -
  have inv: "length (x s) = N \<and> length (alpha_m s) = N \<and> Vt N \<le> volume (x s)"
    by (rule reachable_wf_inv[OF assms(1,2) _ assms(3)])
  then have i1: "length (x s) = N" and i2: "length (alpha_m s) = N"
    and i3: "Vt N \<le> volume (x s)" by simp_all
  show ?thesis
  proof (rule pass_spec[OF assms(1,2) i1 i2 i3 assms(4)])
    fix am c m
    let ?ss = "n_sorted_solid nu" and ?sv = "n_sorted_void nu"
    let ?u1 = "removed_upd (solid (x s)) ?ss (x s) c"
    let ?u2 = "swapped_upd (solid (x s)) (void (x s)) ?ss ?sv ?u1 m"
    let ?pairs = "swap_pairs (solid (x s)) (void (x s)) ?ss ?sv c m"
    assume p1: "momentum_step lde (alpha_m s) (n_alpha_f nu) = Inr am"
      and p3: "sort ?ss = [0..<volume (x s)]"
      and p4: "sort ?sv = [0..<N - volume (x s)]"
      and p5: "c = min (volume (x s) - Vt N) (dVmax N)"
      and pm: "m \<le> swap_limit N (length ?sv) c"
      and p6: "c + m \<le> volume (x s)" and p7: "m \<le> N - volume (x s)"
      and p8: "changing_volume N (solid (x s)) ?ss (x s) = Inr ?u1"
      and p9: "constant_volume N am (solid (x s)) (void (x s)) ?ss ?sv ?u1 = Inr ?u2"
    have sv: "sort ?sv = [0..<length (x s) - volume (x s)]" using p4 i1 by simp
    have m': "m \<le> length (x s) - volume (x s)" using p7 i1 by simp
    have cv: "c \<le> volume (x s)" using p6 by simp
    have cd: "c \<le> dVmax N" using p5 by simp
    note sb = swap_bound[OF swap_limit_def cd]
    have c1: "update_topology N am ?ss ?sv (x s) = Inr ?u2"
      by (rule update_topology_eq[OF p8 p9])
    have c2: "int (dVmax N) = max 1 \<lfloor>VV * real N\<rfloor>" by (rule dVmax_floor)
    have c3: "dXmax N = max 2 (TV * real N)" by (simp add: dXmax_def)
    have c4: "ucount ?u1 = min (volume (x s) - Vt N) (dVmax N)"
      using p5 by (simp add: removed_log(2))
    have c5: "length (ulog ?u1) = ucount ?u1" by (simp add: removed_log)
    have c6: "volume (ux ?u1) = volume (x s) - ucount ?u1"
      using removed_volume[OF p3 cv] by (simp add: removed_log(2))
    have "c \<le> volume (x s) - Vt N" using p5 by simp
    then have "Vt N \<le> volume (x s) - c" using i3 by linarith
    then have c7: "Vt N \<le> volume (ux ?u1)" using c6 by (simp add: removed_log(2))
    have c8: "ulog ?u2 = ulog ?u1 @ concat (map (\<lambda>(es, ev). [(es, True), (ev, False)]) ?pairs)"
      using swapped_log[of "solid (x s)" "void (x s)" ?ss ?sv ?u1 m]
      by (simp only: removed_log(2))
    note sp = swap_pairs_props[OF p3 sv p6 m']
    have c10: "distinct (map fst (ulog ?u2))"
      by (rule updated_log_distinct[OF p3 sv p6 m'])
    have c11: "{e. e < N \<and> ux ?u2 ! e \<noteq> x s ! e} = fst ` set (ulog ?u2)"
      using updated_changed[OF p3 sv p6 m'] by (simp only: i1)
    have c12: "volume (ux ?u2) = volume (ux ?u1)"
      using updated_volume[OF p3 sv p6 m'] c6 by (simp add: removed_log(2))
    have "2 * real m \<le> 2 * real (swap_limit N (length ?sv) c)" using pm by simp
    also have "\<dots> \<le> dXmax N - real c" by (rule sb(2))
    finally have m2: "2 * real m \<le> dXmax N - real c" .
    then have c13: "2 * real (length ?pairs) \<le> dXmax N - real (ucount ?u1)"
      by (simp add: sp(2) removed_log(2))
    have c14: "ucount ?u1 \<le> dVmax N" using cd by (simp add: removed_log(2))
    have "length (ulog ?u2) = c + 2 * m" by (rule updated_log_length)
    then have c15: "real (length (ulog ?u2)) \<le> dXmax N" using m2 by simp
    show ?thesis
      by (intro exI[of _ am] exI[of _ ?u1] exI[of _ ?u2] exI[of _ ?pairs] conjI)
         (fact p1 p8 p9 c1 c2 c3 c4 c5 c6 c7 c8 sp(1) c10 c11 c12 c13 c14 c15)+
  qed
qed

section \<open>The run on 4 x 2 elements\<close>

lemma ex8_iter:
  "iteration 8 [6, 7] (ex8_nu 1) (ex8_state 0) = Inr (ex8_state 1)"
  "iteration 8 [6, 7] (ex8_nu 2) (ex8_state 1) = Inr (ex8_state 2)"
  "iteration 8 [6, 7] (ex8_nu 3) (ex8_state 2) = Inr (ex8_state 3)"
  "iteration 8 [6, 7] (ex8_nu 4) (ex8_state 3) = Inr (ex8_state 4)"
  "iteration 8 [6, 7] (ex8_nu 5) (ex8_state 4) = Inr (ex8_state 5)"
  by code_simp+

lemma ex8_keep_going: "keep_going (ex8_state k)"
  by (simp add: ex8_state_def init_state_def)

lemma ex8_reachable:
  assumes "\<And>k. k < 5 \<Longrightarrow> P (ex8_state k) (ex8_nu (Suc k))"
  shows "k \<le> 5 \<Longrightarrow> reachable 8 [6, 7] P (ex8_state k)"
proof (induction k)
  case 0
  have "ex8_state 0 = init_state 8" by (simp add: ex8_state_def)
  then show ?case using reachable_init[of 8 "[6, 7]" P] by simp
next
  case (Suc k)
  then have k: "k < 5" and r: "reachable 8 [6, 7] P (ex8_state k)" by simp_all
  have it: "iteration 8 [6, 7] (ex8_nu (Suc k)) (ex8_state k) = Inr (ex8_state (Suc k))"
  proof -
    from k consider "k = 0" | "k = 1" | "k = 2" | "k = 3" | "k = 4" by linarith
    then show ?thesis
      by cases (use ex8_iter in \<open>simp_all add: numeral_eq_Suc\<close>)
  qed
  show ?case
  proof (rule reachable_step[where s = "ex8_state k" and nu = "ex8_nu (Suc k)"])
    show "reachable 8 [6, 7] P (ex8_state k)" by (rule r)
    show "keep_going (ex8_state k)" by (rule ex8_keep_going)
    show "P (ex8_state k) (ex8_nu (Suc k))" by (rule assms[OF k])
    show "iteration 8 [6, 7] (ex8_nu (Suc k)) (ex8_state k) = Inr (ex8_state (Suc k))"
      by (rule it)
  qed
qed

lemma ex8_wf:
  "numerics_wf 8 [6, 7] (ex8_state 0) (ex8_nu 1)"
  "numerics_wf 8 [6, 7] (ex8_state 1) (ex8_nu 2)"
  "numerics_wf 8 [6, 7] (ex8_state 2) (ex8_nu 3)"
  "numerics_wf 8 [6, 7] (ex8_state 3) (ex8_nu 4)"
  "numerics_wf 8 [6, 7] (ex8_state 4) (ex8_nu 5)"
  by code_simp+

lemma ex8_wf_all:
  assumes "k < 5"
  shows "numerics_wf 8 [6, 7] (ex8_state k) (ex8_nu (Suc k))"
proof -
  from assms consider "k = 0" | "k = 1" | "k = 2" | "k = 3" | "k = 4" by linarith
  then show ?thesis
    by cases (use ex8_wf in \<open>simp_all add: numeral_eq_Suc\<close>)
qed

lemma ex8_momentum5:
  "momentum_step [6, 7] (alpha_m (ex8_state 4)) (n_alpha_f (ex8_nu 5)) = Inr ex8_am5"
  by code_simp

theorem topology_update_caps_witness:
  "\<exists>u2. update_topology 8 ex8_am5 (n_sorted_solid (ex8_nu 5)) (n_sorted_void (ex8_nu 5))
           (x (ex8_state 4)) = Inr u2 \<and>
         distinct (map fst (ulog u2)) \<and> real (length (ulog u2)) \<le> dXmax 8 \<and>
         {e. e < 8 \<and> ux u2 ! e \<noteq> x (ex8_state 4) ! e} = fst ` set (ulog u2)"
proof -
  have h1: "(2::nat) \<le> 8" by simp
  have h2: "\<forall>e\<in>set [6, 7]. e < (8::nat)" by simp
  have h3: "reachable 8 [6, 7] (numerics_wf 8 [6, 7]) (ex8_state 4)"
    by (rule ex8_reachable[where P = "numerics_wf 8 [6, 7]"]) (simp_all add: ex8_wf_all)
  from topology_update_caps[OF h1 h2 h3 ex8_wf(5)] show ?thesis
    unfolding ex8_momentum5 by blast
qed

text \<open>
  Claim C2, as the code has it. In every pass, for well-formed numerical inputs, each
  (solid, void) pair the swap phase executes has a solid member whose \<open>m\<close> is not less
  than the void member's \<open>m\<close> (for finite values: the void's \<open>m\<close> is at most the solid's);
  and when the phase stops before its bound, the next candidate pair has a solid \<open>m\<close>
  strictly less than the void \<open>m\<close>. An exact tie is therefore swapped.
\<close>

theorem swap_rule:
  assumes "2 \<le> N" and "\<forall>e\<in>set lde. e < N"
    and "reachable N lde (numerics_wf N lde) s" and "numerics_wf N lde s nu"
  shows "\<exists>am u1 u2 pairs.
     momentum_step lde (alpha_m s) (n_alpha_f nu) = Inr am \<and>
     changing_volume N (solid (x s)) (n_sorted_solid nu) (x s) = Inr u1 \<and>
     constant_volume N am (solid (x s)) (void (x s)) (n_sorted_solid nu) (n_sorted_void nu) u1
       = Inr u2 \<and>
     ulog u2 = ulog u1 @ concat (map (\<lambda>(es, ev). [(es, True), (ev, False)]) pairs) \<and>
     pairs = swap_pairs (solid (x s)) (void (x s)) (n_sorted_solid nu) (n_sorted_void nu)
               (ucount u1) (length pairs) \<and>
     length pairs \<le> swap_limit N (length (n_sorted_void nu)) (ucount u1) \<and>
     (\<forall>(es, ev)\<in>set pairs. \<not> flt (am ! es) (am ! ev) \<and>
        (\<forall>a b. am ! es = Fin a \<and> am ! ev = Fin b \<longrightarrow> b \<le> a)) \<and>
     (length pairs < swap_limit N (length (n_sorted_void nu)) (ucount u1) \<longrightarrow>
        flt (am ! es_at (solid (x s)) (n_sorted_solid nu) (length pairs + ucount u1))
            (am ! ev_at (void (x s)) (n_sorted_void nu) (length pairs)))"
proof -
  have inv: "length (x s) = N \<and> length (alpha_m s) = N \<and> Vt N \<le> volume (x s)"
    by (rule reachable_wf_inv[OF assms(1,2) _ assms(3)])
  then have i1: "length (x s) = N" and i2: "length (alpha_m s) = N"
    and i3: "Vt N \<le> volume (x s)" by simp_all
  show ?thesis
  proof (rule pass_spec[OF assms(1,2) i1 i2 i3 assms(4)])
    fix am c m
    let ?ss = "n_sorted_solid nu" and ?sv = "n_sorted_void nu"
    let ?u1 = "removed_upd (solid (x s)) ?ss (x s) c"
    let ?u2 = "swapped_upd (solid (x s)) (void (x s)) ?ss ?sv ?u1 m"
    let ?pairs = "swap_pairs (solid (x s)) (void (x s)) ?ss ?sv c m"
    assume p1: "momentum_step lde (alpha_m s) (n_alpha_f nu) = Inr am"
      and pm: "m \<le> swap_limit N (length ?sv) c"
      and p8: "changing_volume N (solid (x s)) ?ss (x s) = Inr ?u1"
      and p9: "constant_volume N am (solid (x s)) (void (x s)) ?ss ?sv ?u1 = Inr ?u2"
      and pa: "\<forall>k<m. \<not> flt (am ! es_at (solid (x s)) ?ss (k + c)) (am ! ev_at (void (x s)) ?sv k)"
      and pb: "m < swap_limit N (length ?sv) c \<longrightarrow>
                 flt (am ! es_at (solid (x s)) ?ss (m + c)) (am ! ev_at (void (x s)) ?sv m)"
    have uc: "ucount ?u1 = c" by (simp add: removed_log(2))
    have lp: "length ?pairs = m" by (simp add: swap_pairs_def)
    have c1: "ulog ?u2 = ulog ?u1 @ concat (map (\<lambda>(es, ev). [(es, True), (ev, False)]) ?pairs)"
      using swapped_log[of "solid (x s)" "void (x s)" ?ss ?sv ?u1 m] by (simp only: uc)
    have c2: "?pairs = swap_pairs (solid (x s)) (void (x s)) ?ss ?sv (ucount ?u1) (length ?pairs)"
      by (simp only: uc lp)
    have c3: "length ?pairs \<le> swap_limit N (length ?sv) (ucount ?u1)"
      using pm by (simp only: uc lp)
    have c4: "\<forall>(es, ev)\<in>set ?pairs. \<not> flt (am ! es) (am ! ev) \<and>
                (\<forall>a b. am ! es = Fin a \<and> am ! ev = Fin b \<longrightarrow> b \<le> a)"
      using pa by (auto simp: swap_pairs_def)
    have c5: "length ?pairs < swap_limit N (length ?sv) (ucount ?u1) \<longrightarrow>
                flt (am ! es_at (solid (x s)) ?ss (length ?pairs + ucount ?u1))
                    (am ! ev_at (void (x s)) ?sv (length ?pairs))"
      using pb by (simp only: uc lp)
    show ?thesis
      by (intro exI[of _ am] exI[of _ ?u1] exI[of _ ?u2] exI[of _ ?pairs] conjI)
         (fact p1 p8 p9 c1 c2 c3 c4 c5)+
  qed
qed

text \<open>
  Claim C2 as stated fails: in the fifth pass of the run on 4 x 2 elements the solid
  element 4 and the void element 1 both have \<open>m = -3/4\<close>, and the pair is swapped.
\<close>

theorem tie_is_swapped:
  "iteration 8 [6, 7] (ex8_nu 5) (ex8_state 4) = Inr (ex8_state 5) \<and>
   momentum_step [6, 7] (alpha_m (ex8_state 4)) (n_alpha_f (ex8_nu 5)) = Inr ex8_am5 \<and>
   update_topology 8 ex8_am5 (n_sorted_solid (ex8_nu 5)) (n_sorted_void (ex8_nu 5))
     (x (ex8_state 4)) =
     Inr \<lparr>ux = x (ex8_state 5), ucount = 0, ulog = [(4, True), (1, False)]\<rparr> \<and>
   x (ex8_state 4) ! 4 \<and> \<not> x (ex8_state 4) ! 1 \<and> \<not> x (ex8_state 5) ! 4 \<and> x (ex8_state 5) ! 1 \<and>
   ex8_am5 ! 4 = Fin (- (3 / 4)) \<and> ex8_am5 ! 1 = Fin (- (3 / 4)) \<and>
   \<not> flt (ex8_am5 ! 4) (ex8_am5 ! 1) \<and> \<not> flt (ex8_am5 ! 1) (ex8_am5 ! 4)"
  by code_simp

lemma ex8_phases5:
  "changing_volume 8 (solid (x (ex8_state 4))) (n_sorted_solid (ex8_nu 5)) (x (ex8_state 4)) =
     Inr \<lparr>ux = x (ex8_state 4), ucount = 0, ulog = []\<rparr>"
  "constant_volume 8 ex8_am5 (solid (x (ex8_state 4))) (void (x (ex8_state 4)))
     (n_sorted_solid (ex8_nu 5)) (n_sorted_void (ex8_nu 5))
     \<lparr>ux = x (ex8_state 4), ucount = 0, ulog = []\<rparr> =
     Inr \<lparr>ux = x (ex8_state 5), ucount = 0, ulog = [(4, True), (1, False)]\<rparr>"
  by code_simp+

theorem swap_rule_witness:
  "\<exists>u1 u2. changing_volume 8 (solid (x (ex8_state 4))) (n_sorted_solid (ex8_nu 5))
              (x (ex8_state 4)) = Inr u1 \<and>
     constant_volume 8 ex8_am5 (solid (x (ex8_state 4))) (void (x (ex8_state 4)))
       (n_sorted_solid (ex8_nu 5)) (n_sorted_void (ex8_nu 5)) u1 = Inr u2 \<and>
     ulog u2 = ulog u1 @ [(4, True), (1, False)] \<and>
     \<not> flt (ex8_am5 ! 4) (ex8_am5 ! 1)"
proof -
  have h1: "(2::nat) \<le> 8" by simp
  have h2: "\<forall>e\<in>set [6, 7]. e < (8::nat)" by simp
  have h3: "reachable 8 [6, 7] (numerics_wf 8 [6, 7]) (ex8_state 4)"
    by (rule ex8_reachable[where P = "numerics_wf 8 [6, 7]"]) (simp_all add: ex8_wf_all)
  have nf: "\<not> flt (ex8_am5 ! 4) (ex8_am5 ! 1)" by code_simp
  from swap_rule[OF h1 h2 h3 ex8_wf(5)] obtain u1 u2 :: upd where
    a: "changing_volume 8 (solid (x (ex8_state 4))) (n_sorted_solid (ex8_nu 5))
          (x (ex8_state 4)) = Inr u1"
    and b: "constant_volume 8 ex8_am5 (solid (x (ex8_state 4))) (void (x (ex8_state 4)))
          (n_sorted_solid (ex8_nu 5)) (n_sorted_void (ex8_nu 5)) u1 = Inr u2"
    unfolding ex8_momentum5 by blast
  have u1: "u1 = \<lparr>ux = x (ex8_state 4), ucount = 0, ulog = []\<rparr>"
    using a ex8_phases5(1) by simp
  have u2: "u2 = \<lparr>ux = x (ex8_state 5), ucount = 0, ulog = [(4, True), (1, False)]\<rparr>"
    using b ex8_phases5(2) unfolding u1 by simp
  have "ulog u2 = ulog u1 @ [(4, True), (1, False)]" unfolding u1 u2 by simp
  then show ?thesis using a b nf by blast
qed

section \<open>The load band\<close>

lemma np_le_NInf: "np_le v NInf \<Longrightarrow> v = NInf"
  by (cases v) auto

lemma flt_NInf_fin: "is_fin v \<Longrightarrow> flt NInf v"
  by (cases v) auto

lemma not_flt_NInf: "\<not> flt v NInf"
  by (cases v) auto

text \<open>
  In an ascending argsort, everything below an element at minus infinity is at minus
  infinity too; when only loaded elements are, they number at least the elements below.
\<close>

lemma below_load_are_load:
  assumes ss: "sort ss = [0..<volume x0]"
    and srt: "sorted_wrt (\<lambda>i j. np_le (map (\<lambda>e. am ! e) (solid x0) ! i)
                                        (map (\<lambda>e. am ! e) (solid x0) ! j)) ss"
    and ld: "\<forall>e\<in>set lde. am ! e = NInf"
    and fin: "\<forall>e<length x0. e \<notin> set lde \<longrightarrow> is_fin (am ! e)"
    and k: "k < volume x0" and ek: "es_at (solid x0) ss k \<in> set lde"
  shows "volume x0 - k \<le> length lde"
proof -
  let ?L = "volume x0" and ?es = "es_at (solid x0) ss"
  let ?vals = "map (\<lambda>e. am ! e) (solid x0)"
  note p = sort_upt_props[OF ss]
  have rng: "ss ! i < ?L" if "i < ?L" for i
  proof -
    have "ss ! i \<in> set ss" using that p(1) by (intro nth_mem) simp
    then show ?thesis using p(3) by simp
  qed
  have val: "?vals ! (ss ! (length ss - 1 - j)) = am ! ?es j" if "j < ?L" for j
  proof -
    have "length ss - 1 - j < ?L" using that p(1) by simp
    then have "ss ! (length ss - 1 - j) < length (solid x0)"
      using rng by (simp add: solid_props(3))
    then show ?thesis by (simp add: es_at_def)
  qed
  have mem: "?es j \<in> set lde" if j: "k \<le> j" "j < ?L" for j
  proof (cases "j = k")
    case True
    then show ?thesis using ek by simp
  next
    case False
    then have lt: "length ss - 1 - j < length ss - 1 - k" using j k p(1) by simp
    have le: "length ss - 1 - k < length ss" using k p(1) by simp
    have "np_le (?vals ! (ss ! (length ss - 1 - j))) (?vals ! (ss ! (length ss - 1 - k)))"
      by (rule sorted_wrt_nth_less[OF srt lt le])
    then have "np_le (am ! ?es j) (am ! ?es k)" using val[OF j(2)] val[OF k] by simp
    then have "np_le (am ! ?es j) NInf" using ld ek by simp
    then have n: "am ! ?es j = NInf" by (rule np_le_NInf)
    have "?es j < length x0" using es_at_props(1)[OF ss] j(2) by simp
    then show ?thesis using fin n by (metis is_fin.simps(3))
  qed
  have kl: "k \<le> ?L" using k by simp
  note ic = es_image_card(1)[OF ss kl order_refl]
  have "?es ` {k..<?L} \<subseteq> set lde" using mem by auto
  then have "card (?es ` {k..<?L}) \<le> card (set lde)" by (intro card_mono) simp_all
  also have "\<dots> \<le> length lde" by (rule card_length)
  finally show ?thesis using ic by simp
qed

lemma load_never_selected:
  assumes ss: "sort ss = [0..<volume x0]" and sv: "sort sv = [0..<length x0 - volume x0]"
    and srt: "sorted_wrt (\<lambda>i j. np_le (map (\<lambda>e. am ! e) (solid x0) ! i)
                                        (map (\<lambda>e. am ! e) (solid x0) ! j)) ss"
    and ld: "\<forall>e\<in>set lde. am ! e = NInf"
    and fin: "\<forall>e<length x0. e \<notin> set lde \<longrightarrow> is_fin (am ! e)"
    and sol: "\<forall>e\<in>set lde. x0 ! e"
    and few: "length lde \<le> V" and vt: "V \<le> volume x0" and c: "c \<le> volume x0 - V"
    and cm: "c + m \<le> volume x0" and m: "m \<le> length x0 - volume x0"
    and ex: "\<forall>k<m. \<not> flt (am ! es_at (solid x0) ss (k + c)) (am ! ev_at (void x0) sv k)"
    and e: "e \<in> set lde"
  shows "e \<notin> es_at (solid x0) ss ` {..<c + m}" and "e \<notin> ev_at (void x0) sv ` {..<m}"
proof -
  let ?es = "es_at (solid x0) ss" and ?ev = "ev_at (void x0) sv"
  show ev: "e \<notin> ?ev ` {..<m}"
    using ev_image_card(2)[OF sv m] sol e by auto
  show "e \<notin> ?es ` {..<c + m}"
  proof
    assume "e \<in> ?es ` {..<c + m}"
    then obtain j where j: "j < c + m" "e = ?es j" by auto
    have jl: "j < volume x0" using j(1) cm by simp
    have ej: "?es j \<in> set lde" using e j(2) by simp
    show False
    proof (cases "j < c")
      case True
      have "volume x0 - j \<le> length lde"
        by (rule below_load_are_load[OF ss srt ld fin jl ej])
      then show False using True c few vt by linarith
    next
      case False
      then have km: "j - c < m" and jc: "j - c + c = j" using j(1) by simp_all
      have n: "\<not> flt (am ! ?es j) (am ! ?ev (j - c))" using ex km jc by metis
      have "?ev (j - c) \<in> ?ev ` {..<m}" using km by simp
      then have v: "?ev (j - c) < length x0" "\<not> x0 ! ?ev (j - c)"
        using ev_image_card(2)[OF sv m] by auto
      then have "?ev (j - c) \<notin> set lde" using sol by auto
      then have "is_fin (am ! ?ev (j - c))" using fin v(1) by simp
      then have "flt NInf (am ! ?ev (j - c))" by (rule flt_NInf_fin)
      then show False using n ld ej by simp
    qed
  qed
qed

lemma updated_log_set:
  "fst ` set (ulog (swapped_upd sol vd ss sv (removed_upd sol ss x0 c) m)) =
     es_at sol ss ` {..<c + m} \<union> ev_at vd sv ` {..<m}"
proof -
  let ?u2 = "swapped_upd sol vd ss sv (removed_upd sol ss x0 c) m"
  have "fst ` set (ulog ?u2) = set (map fst (ulog ?u2))" by simp
  also have "\<dots> = es_at sol ss ` {..<c + m} \<union> ev_at vd sv ` {..<m}"
    unfolding updated_log_fst by (rule log_set)
  finally show ?thesis .
qed

lemma sens_finite_Inr:
  assumes "sens_finite lde s nu" and "momentum_step lde (alpha_m s) (n_alpha_f nu) = Inr am"
  shows "\<forall>e<length am. e \<notin> set lde \<longrightarrow> is_fin (am ! e)"
  using assms by (auto simp: sens_finite_def list_all_iff)

lemma pass_load:
  assumes "2 \<le> N" and "\<forall>e\<in>set lde. e < N" and "length lde \<le> Vt N"
    and "length (x s) = N" and "length (alpha_m s) = N" and "Vt N \<le> volume (x s)"
    and "numerics_fin N lde s nu" and "\<forall>e\<in>set lde. x s ! e"
  shows "\<exists>am u. momentum_step lde (alpha_m s) (n_alpha_f nu) = Inr am \<and>
           update_topology N am (n_sorted_solid nu) (n_sorted_void nu) (x s) = Inr u \<and>
           (\<forall>e\<in>set lde. am ! e = NInf \<and> (\<forall>e'<N. \<not> flt (am ! e') (am ! e)) \<and>
                         e \<notin> fst ` set (ulog u) \<and> ux u ! e)"
proof -
  have wf: "numerics_wf N lde s nu" and sf: "sens_finite lde s nu"
    using assms(7) by (simp_all add: numerics_fin_def)
  have ao: "argsort_ok lde s nu" using wf by (simp add: numerics_wf_def)
  show ?thesis
  proof (rule pass_spec[OF assms(1,2,4,5,6) wf])
    fix am c m
    let ?ss = "n_sorted_solid nu" and ?sv = "n_sorted_void nu"
    let ?u1 = "removed_upd (solid (x s)) ?ss (x s) c"
    let ?u2 = "swapped_upd (solid (x s)) (void (x s)) ?ss ?sv ?u1 m"
    assume p1: "momentum_step lde (alpha_m s) (n_alpha_f nu) = Inr am"
      and p2: "length am = N"
      and p3: "sort ?ss = [0..<volume (x s)]"
      and p4: "sort ?sv = [0..<N - volume (x s)]"
      and p5: "c = min (volume (x s) - Vt N) (dVmax N)"
      and p6: "c + m \<le> volume (x s)" and p7: "m \<le> N - volume (x s)"
      and p8: "changing_volume N (solid (x s)) ?ss (x s) = Inr ?u1"
      and p9: "constant_volume N am (solid (x s)) (void (x s)) ?ss ?sv ?u1 = Inr ?u2"
      and pa: "\<forall>k<m. \<not> flt (am ! es_at (solid (x s)) ?ss (k + c)) (am ! ev_at (void (x s)) ?sv k)"
    have sv: "sort ?sv = [0..<length (x s) - volume (x s)]" using p4 assms(4) by simp
    have m': "m \<le> length (x s) - volume (x s)" using p7 assms(4) by simp
    have cv: "c \<le> volume (x s) - Vt N" using p5 by simp
    note srt = argsort_ok_sorts(3)[OF ao p1]
    have ld: "\<forall>e\<in>set lde. am ! e = NInf" using momentum_step_Inr(2)[OF p1] by simp
    have fin: "\<forall>e<length (x s). e \<notin> set lde \<longrightarrow> is_fin (am ! e)"
      using sens_finite_Inr[OF sf p1] p2 assms(4) by simp
    have ut: "update_topology N am ?ss ?sv (x s) = Inr ?u2"
      by (rule update_topology_eq[OF p8 p9])
    have each: "am ! e = NInf \<and> (\<forall>e'<N. \<not> flt (am ! e') (am ! e)) \<and>
                e \<notin> fst ` set (ulog ?u2) \<and> ux ?u2 ! e" if e: "e \<in> set lde" for e
    proof -
      note ns = load_never_selected[OF p3 sv srt ld fin assms(8,3,6) cv p6 m' pa e]
      have a: "am ! e = NInf" using ld e by simp
      have b: "\<forall>e'<N. \<not> flt (am ! e') (am ! e)" unfolding a by (simp add: not_flt_NInf)
      have c': "e \<notin> fst ` set (ulog ?u2)" unfolding updated_log_set using ns by simp
      have el: "e < length (x s)" using assms(2,4) e by simp
      have d: "ux ?u2 ! e" using updated_nth[OF p3 sv p6 m' el] ns(1) assms(8) e by simp
      show ?thesis using a b c' d by simp
    qed
    show ?thesis
      by (intro exI[of _ am] exI[of _ ?u2] conjI ballI) (use p1 ut each in simp_all)
  qed
qed

lemma numerics_fin_wf: "numerics_fin N lde s nu \<Longrightarrow> numerics_wf N lde s nu"
  by (simp add: numerics_fin_def)

lemma reachable_load_solid:
  assumes "2 \<le> N" and "\<forall>e\<in>set lde. e < N" and "length lde \<le> Vt N"
    and "reachable N lde (numerics_fin N lde) s"
  shows "\<forall>e\<in>set lde. x s ! e"
  using assms(4)
proof (induction rule: reachable_induct)
  case init
  show ?case using assms(2) by (simp add: init_state_def)
next
  case (step s nu s')
  have r: "reachable N lde (numerics_fin N lde) s" by (rule step.hyps(1))
  have inv: "length (x s) = N \<and> length (alpha_m s) = N \<and> Vt N \<le> volume (x s)"
    by (rule reachable_wf_inv[OF assms(1,2) numerics_fin_wf r])
  then have i1: "length (x s) = N" and i2: "length (alpha_m s) = N"
    and i3: "Vt N \<le> volume (x s)" by simp_all
  from pass_load[OF assms(1,2,3) i1 i2 i3 step.hyps(3) step.IH]
  obtain am and u :: upd where
    p: "momentum_step lde (alpha_m s) (n_alpha_f nu) = Inr am"
       "update_topology N am (n_sorted_solid nu) (n_sorted_void nu) (x s) = Inr u"
       "\<forall>e\<in>set lde. ux u ! e" by blast
  from iteration_Inr2[OF step.hyps(4)] obtain am' and u' :: upd where
    it: "momentum_step lde (alpha_m s) (n_alpha_f nu) = Inr am'"
        "update_topology N am' (n_sorted_solid nu) (n_sorted_void nu) (x s) = Inr u'"
        "x s' = ux u'" by blast
  have "am' = am" using it(1) p(1) by simp
  then have "u' = u" using it(2) p(2) by simp
  then show ?case using it(3) p(3) by simp
qed

lemma boundary_ld_ele:
  assumes "boundary_conditions Ny bc_pos bc_rad ld_pos ld_rad = Inr b"
  shows "0 < Ny" and "length (ld_ele b) \<le> Ny" and "\<forall>e\<in>set (ld_ele b). e < 2 * Ny * Ny"
proof -
  show ny: "0 < Ny" using assms by (auto simp: boundary_conditions_def split: if_splits)
  let ?ldm = "ld_mask Ny ld_pos ld_rad"
  let ?lde = "map (\<lambda>j. (2 * Ny - 1) * Ny + j)
                (filter (\<lambda>j. map (\<lambda>j. ?ldm ! (j + 1) \<or> ?ldm ! j) [0..<Ny] ! j) [0..<Ny])"
  have "ld_ele b = ?lde"
    using assms ny
    by (auto simp: boundary_conditions_def load_stage_def Let_def ebind_Inr
        split: if_splits prod.splits)
  then have e: "ld_ele b = ?lde" .
  have "length ?lde \<le> length [0..<Ny]" unfolding length_map by (rule length_filter_le)
  then show "length (ld_ele b) \<le> Ny" unfolding e by simp
  have "(2 * Ny - 1) * Ny + j < 2 * Ny * Ny" if "j < Ny" for j
  proof -
    have "(2 * Ny - 1) * Ny + Ny = 2 * Ny * Ny" using ny
      by (metis Suc_pred' add.commute mult_Suc mult_2 add_gr_0)
    then show ?thesis using that by linarith
  qed
  then show "\<forall>e\<in>set (ld_ele b). e < 2 * Ny * Ny" unfolding e by auto
qed

text \<open>
  Claim C8. In every pass of a run whose smoothed sensitivities are finite away from the
  load band, the entries of the load-band elements are minus infinity after the momentum
  step and no entry of the vector is less; no load-band element is among the elements
  the topology update flips, neither in the reduction phase nor in a swap; and the
  load-band elements are solid in every state of the run.
\<close>

theorem load_band_stays_solid:
  assumes "boundary_conditions Ny bc_pos bc_rad ld_pos ld_rad = Inr b"
    and "reachable (2 * Ny * Ny) (ld_ele b) (numerics_fin (2 * Ny * Ny) (ld_ele b)) s"
    and "numerics_fin (2 * Ny * Ny) (ld_ele b) s nu"
  shows "(\<forall>e\<in>set (ld_ele b). x s ! e) \<and>
         (\<exists>am u. momentum_step (ld_ele b) (alpha_m s) (n_alpha_f nu) = Inr am \<and>
            update_topology (2 * Ny * Ny) am (n_sorted_solid nu) (n_sorted_void nu) (x s) = Inr u \<and>
            (\<forall>e\<in>set (ld_ele b). am ! e = NInf \<and>
               (\<forall>e'<2 * Ny * Ny. \<not> flt (am ! e') (am ! e)) \<and>
               e \<notin> fst ` set (ulog u) \<and> ux u ! e))"
proof -
  note bl = boundary_ld_ele[OF assms(1)]
  have n2: "2 \<le> 2 * Ny * Ny" using bl(1) by (cases Ny) simp_all
  have "Ny \<le> Ny * Ny" using bl(1) by (cases Ny) simp_all
  then have "length (ld_ele b) \<le> Ny * Ny" using bl(2) by (rule order_trans[rotated])
  then have few: "length (ld_ele b) \<le> Vt (2 * Ny * Ny)" by (simp add: Vt_div)
  have sol: "\<forall>e\<in>set (ld_ele b). x s ! e"
    by (rule reachable_load_solid[OF n2 bl(3) few assms(2)])
  have inv: "length (x s) = 2 * Ny * Ny \<and> length (alpha_m s) = 2 * Ny * Ny \<and>
             Vt (2 * Ny * Ny) \<le> volume (x s)"
    by (rule reachable_wf_inv[OF n2 bl(3) numerics_fin_wf assms(2)])
  then have i1: "length (x s) = 2 * Ny * Ny" and i2: "length (alpha_m s) = 2 * Ny * Ny"
    and i3: "Vt (2 * Ny * Ny) \<le> volume (x s)" by simp_all
  show ?thesis
    using sol pass_load[OF n2 bl(3) few i1 i2 i3 assms(3) sol] by simp
qed

lemma ex8_boundary: "boundary_conditions 2 0 (1 / 2) 0 (1 / 2) = Inr ex8_bc"
  by code_simp

lemma ex8_fin:
  "numerics_fin 8 [6, 7] (ex8_state 0) (ex8_nu 1)"
  "numerics_fin 8 [6, 7] (ex8_state 1) (ex8_nu 2)"
  "numerics_fin 8 [6, 7] (ex8_state 2) (ex8_nu 3)"
  "numerics_fin 8 [6, 7] (ex8_state 3) (ex8_nu 4)"
  "numerics_fin 8 [6, 7] (ex8_state 4) (ex8_nu 5)"
  by code_simp+

lemma ex8_fin_all:
  assumes "k < 5"
  shows "numerics_fin 8 [6, 7] (ex8_state k) (ex8_nu (Suc k))"
proof -
  from assms consider "k = 0" | "k = 1" | "k = 2" | "k = 3" | "k = 4" by linarith
  then show ?thesis
    by cases (use ex8_fin in \<open>simp_all add: numeral_eq_Suc\<close>)
qed

theorem load_band_stays_solid_witness:
  "x (ex8_state 4) ! 6 \<and> x (ex8_state 4) ! 7 \<and>
   (\<exists>u. update_topology 8 ex8_am5 (n_sorted_solid (ex8_nu 5)) (n_sorted_void (ex8_nu 5))
           (x (ex8_state 4)) = Inr u \<and>
        ex8_am5 ! 6 = NInf \<and> ex8_am5 ! 7 = NInf \<and>
        6 \<notin> fst ` set (ulog u) \<and> 7 \<notin> fst ` set (ulog u) \<and> ux u ! 6 \<and> ux u ! 7)"
proof -
  have l: "ld_ele ex8_bc = [6, 7]" by (simp add: ex8_bc_def)
  have n: "2 * 2 * 2 = (8::nat)" by simp
  have r: "reachable 8 [6, 7] (numerics_fin 8 [6, 7]) (ex8_state 4)"
    by (rule ex8_reachable[where P = "numerics_fin 8 [6, 7]"]) (simp_all add: ex8_fin_all)
  have h2: "reachable (2 * 2 * 2) (ld_ele ex8_bc) (numerics_fin (2 * 2 * 2) (ld_ele ex8_bc))
              (ex8_state 4)"
    unfolding l n by (rule r)
  have h3: "numerics_fin (2 * 2 * 2) (ld_ele ex8_bc) (ex8_state 4) (ex8_nu 5)"
    unfolding l n by (rule ex8_fin(5))
  from load_band_stays_solid[OF ex8_boundary h2 h3] show ?thesis
    unfolding l n ex8_momentum5 by auto
qed

section \<open>The load vector (lines 279-296)\<close>

lemma ld_mask_nth:
  assumes "j < Ny + 1"
  shows "ld_mask Ny ld_pos ld_rad ! j = in_band (coor_y Ny j) ld_pos ld_rad"
proof -
  have "(2 * Ny * (Ny + 1) + j) mod (Ny + 1) = j mod (Ny + 1)" by (rule mod_mult_self3)
  then have "(2 * Ny * (Ny + 1) + j) mod (Ny + 1) = j" using assms by (simp only: mod_less)
  moreover have "j mod (Ny + 1) = j" using assms by (simp only: mod_less)
  ultimately have "coor_y Ny (2 * Ny * (Ny + 1) + j) = coor_y Ny j"
    unfolding coor_y_def by (simp only:)
  then show ?thesis using assms by (simp add: ld_mask_def del: upt_Suc)
qed

lemma ld_nodes_eq:
  "filter (\<lambda>j. ld_mask Ny ld_pos ld_rad ! j) [0..<Ny + 1] =
   filter (\<lambda>j. in_band (coor_y Ny j) ld_pos ld_rad) [0..<Ny + 1]"
  by (rule filter_cong) (simp_all add: ld_mask_nth del: upt_Suc)

lemma np_assign_nth:
  assumes "\<forall>i\<in>set ids. i < length xs"
  shows "\<exists>ys. np_assign xs ids v = Inr ys \<and> length ys = length xs \<and>
           (\<forall>e<length xs. ys ! e = (if e \<in> set ids then v else xs ! e))"
proof -
  from np_assign_ok[OF assms] obtain ys where ys: "np_assign xs ids v = Inr ys" by blast
  show ?thesis using ys np_assign_Inr(1,3)[OF ys] by blast
qed

lemma py_get_ends:
  assumes "xs \<noteq> []"
  shows "py_get xs 0 = Inr (hd xs)" and "py_get xs (- 1) = Inr (last xs)"
proof -
  show "py_get xs 0 = Inr (hd xs)" using assms by (cases xs) (simp_all add: py_get_def)
  have l: "Suc 0 \<le> length xs" using assms by (cases xs) simp_all
  then have "nat (int (length xs) + (- 1)) = length xs - 1" by simp
  moreover have "- int (length xs) \<le> - 1" using l by simp
  ultimately show "py_get xs (- 1) = Inr (last xs)"
    using assms by (simp add: py_get_def last_conv_nth)
qed

text \<open>The load vector for at least one loaded node (lines 291-296).\<close>

lemma load_vector_weights:
  assumes "ids \<noteq> []" and "distinct ids" and "\<forall>i\<in>set ids. 2 * i + 1 < G"
  shows "\<exists>fgv. load_vector G (length ids) ids = Inr fgv \<and> length fgv = G \<and>
           (\<forall>d<G. fgv ! d =
              (if d \<notin> (\<lambda>i. 2 * i + 1) ` set ids then 0
               else if length ids = 1 then - 1
               else if d = 2 * hd ids + 1 \<or> d = 2 * last ids + 1
                 then 0.5 * (- 1 / (real (length ids) - 1))
               else - 1 / (real (length ids) - 1)))"
proof (cases "length ids = 1")
  case True
  have r: "\<forall>i\<in>set (map (\<lambda>i. 2 * i + 1) ids). i < length (replicate G (0::real))"
    using assms(3) by simp
  from np_assign_nth[OF r, of "- 1"] obtain fgv where
    f: "np_assign (replicate G (0::real)) (map (\<lambda>i. 2 * i + 1) ids) (- 1) = Inr fgv"
       "length fgv = G"
       "\<forall>e<G. fgv ! e = (if e \<in> set (map (\<lambda>i. 2 * i + 1) ids) then - 1 else replicate G 0 ! e)"
    by auto
  have "load_vector G (length ids) ids = Inr fgv"
    using True f(1) by (simp add: load_vector_def)
  then show ?thesis using True f(2,3) by (intro exI[of _ fgv]) auto
next
  case False
  moreover have "length ids \<noteq> 0" using assms(1) by simp
  ultimately have l2: "2 \<le> length ids" by linarith
  let ?v = "- 1 / (real (length ids) - 1)"
  let ?mid = "butlast (tl ids)"
  have mid_sub: "set ?mid \<subseteq> set ids"
  proof
    fix i assume "i \<in> set ?mid"
    then have "i \<in> set (tl ids)" by (rule in_set_butlastD)
    then show "i \<in> set ids" using assms(1) by (rule_tac list.set_sel(2))
  qed
  have r1: "\<forall>i\<in>set (map (\<lambda>i. 2 * i + 1) ?mid). i < length (replicate G (0::real))"
    using assms(3) mid_sub by auto
  from np_assign_nth[OF r1, of ?v] obtain fg1 where
    f1: "np_assign (replicate G (0::real)) (map (\<lambda>i. 2 * i + 1) ?mid) ?v = Inr fg1"
        "length fg1 = G"
        "\<forall>e<G. fg1 ! e = (if e \<in> set (map (\<lambda>i. 2 * i + 1) ?mid) then ?v else replicate G 0 ! e)"
    by auto
  note g0 = py_get_ends(1)[OF assms(1)] and g1 = py_get_ends(2)[OF assms(1)]
  have he: "hd ids \<in> set ids" "last ids \<in> set ids" using assms(1) by simp_all
  have r2: "\<forall>i\<in>set (map (\<lambda>i. 2 * i + 1) [hd ids, last ids]). i < length fg1"
    using assms(3) he f1(2) by simp
  from np_assign_nth[OF r2, of "0.5 * ?v"] obtain fgv where
    f2: "np_assign fg1 (map (\<lambda>i. 2 * i + 1) [hd ids, last ids]) (0.5 * ?v) = Inr fgv"
        "length fgv = G"
        "\<forall>e<G. fgv ! e = (if e \<in> set (map (\<lambda>i. 2 * i + 1) [hd ids, last ids])
                          then 0.5 * ?v else fg1 ! e)"
    using f1(2) by auto
  have n0: "length ids \<noteq> 0" using assms(1) by simp
  have lv: "load_vector G (length ids) ids = Inr fgv"
    unfolding load_vector_def Let_def
    by (simp only: n0 False if_False f1(1) g0 g1 f2(1) ebind.simps)
  have mid: "i \<in> set ?mid \<or> i = hd ids \<or> i = last ids" if "i \<in> set ids" for i
  proof -
    obtain a tl' where a: "ids = a # tl'" using assms(1) by (cases ids) auto
    then have "tl' \<noteq> []" using l2 by auto
    then have "tl' = butlast tl' @ [last tl']" by simp
    then have "set ids = {a} \<union> set (butlast tl') \<union> {last tl'}"
      using a by (metis Un_insert_right append_Nil2 insert_is_Un list.simps(15) set_append
          sup_commute)
    then show ?thesis using that a \<open>tl' \<noteq> []\<close> by auto
  qed
  have inj: "2 * i + 1 = 2 * j + 1 \<longleftrightarrow> i = j" for i j :: nat by simp
  show ?thesis
  proof (intro exI[of _ fgv] conjI allI impI)
    show "load_vector G (length ids) ids = Inr fgv" by (rule lv)
    show "length fgv = G" by (rule f2(2))
    fix d assume d: "d < G"
    show "fgv ! d =
              (if d \<notin> (\<lambda>i. 2 * i + 1) ` set ids then 0
               else if length ids = 1 then - 1
               else if d = 2 * hd ids + 1 \<or> d = 2 * last ids + 1
                 then 0.5 * (- 1 / (real (length ids) - 1))
               else - 1 / (real (length ids) - 1))"
    proof (cases "d \<in> (\<lambda>i. 2 * i + 1) ` set ids")
      case out: False
      then have "d \<noteq> 2 * hd ids + 1" "d \<noteq> 2 * last ids + 1" using he by auto
      moreover have "d \<notin> (\<lambda>i. 2 * i + 1) ` set ?mid" using out mid_sub by auto
      ultimately show ?thesis using f2(3) f1(3) d out by simp
    next
      case inn: True
      then obtain i where i: "i \<in> set ids" "d = 2 * i + 1" by auto
      show ?thesis
      proof (cases "i = hd ids \<or> i = last ids")
        case True
        then show ?thesis using f2(3) d i inn False by auto
      next
        case ne: False
        then have "i \<in> set ?mid" using mid[OF i(1)] by simp
        then have "d \<in> set (map (\<lambda>i. 2 * i + 1) ?mid)" using i(2) by simp
        then have "fg1 ! d = ?v" using f1(3) d by simp
        then show ?thesis using f2(3) d i inn False ne by auto
      qed
    qed
  qed
qed


text \<open>
  The load stage with at least one loaded node on the right edge: it completes, and the
  vertical DOF of node \<open>j\<close> of the right edge carries \<open>-1\<close> when it is the only loaded
  node, half of \<open>-1/(n-1)\<close> when it is the first or the last of \<open>n \<ge> 2\<close> loaded nodes and
  \<open>-1/(n-1)\<close> when it lies between them; every other entry of \<^verbatim>\<open>fg\<close> is zero.
\<close>

lemma load_stage_weights:
  fixes Ny :: nat and ld_pos ld_rad :: real
  defines "nodes \<equiv> filter (\<lambda>j. in_band (coor_y Ny j) ld_pos ld_rad) [0..<Ny + 1]"
  defines "dof \<equiv> \<lambda>j. 2 * (2 * Ny * (Ny + 1) + j) + 1"
  defines "G \<equiv> 2 * (2 * Ny + 1) * (Ny + 1)"
  assumes ny: "0 < Ny" and ne: "nodes \<noteq> []"
  shows "\<exists>lde llim fgv. load_stage Ny ld_pos ld_rad = Inr (lde, llim, fgv) \<and> length fgv = G \<and>
           (\<forall>j\<le>Ny. fgv ! dof j =
              (if \<not> in_band (coor_y Ny j) ld_pos ld_rad then 0
               else if length nodes = 1 then - 1
               else if j = hd nodes \<or> j = last nodes
                 then 0.5 * (- 1 / (real (length nodes) - 1))
               else - 1 / (real (length nodes) - 1))) \<and>
           (\<forall>d<G. d \<notin> dof ` {..Ny} \<longrightarrow> fgv ! d = 0)"
proof -
  let ?ldm = "ld_mask Ny ld_pos ld_rad"
  let ?me = "map (\<lambda>j. ?ldm ! (j + 1) \<or> ?ldm ! j) [0..<Ny]"
  let ?lde = "map (\<lambda>j. (2 * Ny - 1) * Ny + j) (filter (\<lambda>j. ?me ! j) [0..<Ny])"
  let ?ids = "map (\<lambda>j. 2 * Ny * (Ny + 1) + j) nodes"
  have nodes_set: "set nodes = {j. j \<le> Ny \<and> in_band (coor_y Ny j) ld_pos ld_rad}"
    unfolding nodes_def by (auto simp del: upt_Suc)
  have ids_eq: "map (\<lambda>j. 2 * Ny * (Ny + 1) + j) (filter (\<lambda>j. ?ldm ! j) [0..<Ny + 1]) = ?ids"
    unfolding nodes_def by (simp only: ld_nodes_eq)
  have "volume ?ldm = length (filter (\<lambda>j. ?ldm ! j) [0..<Ny + 1])"
    unfolding ld_mask_def by (rule length_filter_nth_map[symmetric])
  then have vol: "volume ?ldm = length ?ids"
    unfolding nodes_def by (simp only: ld_nodes_eq length_map)
  \<comment> \<open>an element of the last column touches a loaded node\<close>
  from ne obtain j where j: "j \<le> Ny" "in_band (coor_y Ny j) ld_pos ld_rad"
    using nodes_set by (cases nodes) auto
  then have mj: "?ldm ! j" by (simp add: ld_mask_nth)
  define k where "k = (if j < Ny then j else j - 1)"
  have k: "k < Ny" "?ldm ! (k + 1) \<or> ?ldm ! k"
    using j(1) ny mj by (auto simp: k_def)
  then have "?me ! k" by simp
  then have "k \<in> set (filter (\<lambda>j. ?me ! j) [0..<Ny])" using k(1) by simp
  then have "filter (\<lambda>j. ?me ! j) [0..<Ny] \<noteq> []" by (metis empty_iff empty_set)
  then have lde_ne: "?lde \<noteq> []" by simp
  note l0 = py_get_ends(1)[OF lde_ne] and l1 = py_get_ends(2)[OF lde_ne]
  \<comment> \<open>the load vector\<close>
  have ids_ne: "?ids \<noteq> []" using ne by simp
  have "distinct nodes" unfolding nodes_def by (simp del: upt_Suc)
  then have ids_d: "distinct ?ids" by (simp add: distinct_map inj_on_def)
  have ids_b: "\<forall>i\<in>set ?ids. 2 * i + 1 < G"
  proof
    fix i assume "i \<in> set ?ids"
    then obtain j where "j \<le> Ny" "i = 2 * Ny * (Ny + 1) + j" using nodes_set by auto
    then show "2 * i + 1 < G" unfolding G_def by (simp add: algebra_simps)
  qed
  from load_vector_weights[OF ids_ne ids_d ids_b] obtain fgv where
    fv: "load_vector G (length ?ids) ?ids = Inr fgv" "length fgv = G" and
    fw: "\<forall>d<G. fgv ! d =
              (if d \<notin> (\<lambda>i. 2 * i + 1) ` set ?ids then 0
               else if length ?ids = 1 then - 1
               else if d = 2 * hd ?ids + 1 \<or> d = 2 * last ?ids + 1
                 then 0.5 * (- 1 / (real (length ?ids) - 1))
               else - 1 / (real (length ?ids) - 1))"
    by blast
  have stage: "load_stage Ny ld_pos ld_rad = Inr (?lde, (hd ?lde, last ?lde), fgv)"
    unfolding load_stage_def Let_def
    by (simp only: l0 l1 ebind.simps vol ids_eq fv(1)[unfolded G_def])
  have img: "(\<lambda>i. 2 * i + 1) ` set ?ids = dof ` set nodes"
    unfolding dof_def by (simp add: image_image)
  have hd_ids: "2 * hd ?ids + 1 = dof (hd nodes)" "2 * last ?ids + 1 = dof (last nodes)"
    using ne unfolding dof_def by (simp_all add: hd_map last_map)
  have dof_inj: "dof a = dof b \<longleftrightarrow> a = b" for a b unfolding dof_def by simp
  have dof_lt: "dof j < G" if "j \<le> Ny" for j
    using that unfolding dof_def G_def by (simp add: algebra_simps)
  show ?thesis
  proof (intro exI conjI allI impI)
    show "load_stage Ny ld_pos ld_rad = Inr (?lde, (hd ?lde, last ?lde), fgv)" by (rule stage)
    show "length fgv = G" by (rule fv(2))
  next
    fix j assume jl: "j \<le> Ny"
    have mem: "dof j \<in> dof ` set nodes \<longleftrightarrow> in_band (coor_y Ny j) ld_pos ld_rad"
      using jl nodes_set dof_inj by auto
    have "fgv ! dof j =
              (if dof j \<notin> dof ` set nodes then 0
               else if length nodes = 1 then - 1
               else if dof j = dof (hd nodes) \<or> dof j = dof (last nodes)
                 then 0.5 * (- 1 / (real (length nodes) - 1))
               else - 1 / (real (length nodes) - 1))"
      using fw[rule_format, OF dof_lt[OF jl]] unfolding img hd_ids length_map .
    then show "fgv ! dof j =
              (if \<not> in_band (coor_y Ny j) ld_pos ld_rad then 0
               else if length nodes = 1 then - 1
               else if j = hd nodes \<or> j = last nodes
                 then 0.5 * (- 1 / (real (length nodes) - 1))
               else - 1 / (real (length nodes) - 1))"
      unfolding mem dof_inj .
  next
    fix d assume d: "d < G" "d \<notin> dof ` {..Ny}"
    have "set nodes \<subseteq> {..Ny}" using nodes_set by auto
    then have "d \<notin> dof ` set nodes" using d(2) by auto
    then show "fgv ! d = 0" using fw[rule_format, OF d(1)] unfolding img by simp
  qed
qed

end
